theory Spec2Isabelle
  imports Main "HOL-Library.Multiset"
begin

section \<open>The scheduler of packages/scheduler/src/Scheduler.ts\<close>

text \<open>
  The module keeps its state in module-level variables and mutates task objects that
  sit in two array-backed heaps. The embedding threads one record through every
  function; task objects live in an explicit store, and the heaps hold references into
  it, so that a write to \<open>task.callback\<close> is seen through every alias, as in the source.
  Times are integers (the time units of the clock); time passes while a callback runs
  and between two entries into the module, not inside the module's own statements.
\<close>

subsection \<open>Priorities and callbacks\<close>

text \<open>
  Modelled from the spec: SchedulerPriorities.ts is not among the sources. The five
  levels are those of section 6 of the spec. The table \<open>getTimeoutByPriorityLevel\<close>
  of that file is a parameter (\<open>timeoutOf\<close>) of every function that reaches it.
\<close>

datatype PriorityLevel =
  ImmediatePriority | UserBlockingPriority | NormalPriority | LowPriority | IdlePriority

text \<open>
  A callback is code of the caller. What the scheduler can observe of one invocation is:
  time passes, the callback may call back into the public API (\<open>scheduleCallback\<close>,
  \<open>cancelCallback\<close>), and at the end it returns a function (a continuation), returns
  something that is not a function, or throws. A callback is described by the list of
  these effects, in order, and by how the invocation ends.
\<close>

datatype callback = Callback (effects: "effect list") (ending: outcome)
and effect =
    Elapse nat
  | Schedule PriorityLevel callback "int option"
  | Cancel nat
and outcome =
    ReturnsOther
  | ReturnsFunction callback
  | Throws

datatype exn = CallbackError

subsection \<open>Tasks and the module state\<close>

text \<open>
  The interface Task. The field \<open>id\<close> is named \<open>id_task\<close> here (\<open>id\<close> is the
  identity function of HOL). A callback slot holding \<open>null\<close> is \<open>None\<close>.
\<close>

record Task =
  id_task :: nat
  priorityLevel :: PriorityLevel
  callback :: "callback option"
  startTime :: int
  expirationTime :: int
  sortIndex :: int

text \<open>
  The only function ever passed to \<open>requestHostCallback\<close> is \<open>flushWork\<close>; the
  functions passed to \<open>requestHostTimeout\<close> are \<open>handleTimeout\<close> (in
  \<open>scheduleCallback\<close> and \<open>handleTimeout\<close>) and \<open>flushWork\<close> (in \<open>workLoop\<close>).
\<close>

datatype HostCallback = FlushWork

datatype TimeoutHandler = HandleTimeoutFn | FlushWorkFn

text \<open>
  The module-level variables, followed by the part of the host they act on:
  \<^item> \<open>objs\<close> is the store of task objects; a task object is created only by
    \<open>scheduleCallback\<close>, one per value of \<open>taskIdCounter\<close>, so the reference of a task
    is the value of the counter at its creation;
  \<^item> \<open>taskQueue\<close> and \<open>timerQueue\<close> are the heap arrays, holding references;
  \<^item> \<open>startTime_slice\<close> is the module-level \<open>startTime\<close> (the start of the time
    slice), \<open>None\<close> while it is still \<open>undefined\<close>;
  \<^item> \<open>clock\<close> is what \<open>getCurrentTime()\<close> reads;
  \<^item> \<open>timeouts\<close> are the pending \<open>setTimeout\<close> entries (identifier, handler, delay),
    \<open>nextTimeoutId\<close> the identifier the next \<open>setTimeout\<close> returns;
  \<^item> \<open>postedMessages\<close> counts the messages posted on \<open>channel.port2\<close> and not yet
    delivered;
  \<^item> \<open>invoked\<close> lists, in order, the tasks whose callback has been called (it is
    written by \<open>workLoop\<close> at the call \<open>callback()\<close> and read by nothing).
\<close>

record Scheduler =
  taskIdCounter :: nat
  isHostCallbackScheduled :: bool
  isHostTimeoutScheduled :: bool
  isPerformingWork :: bool
  isMessageLoopRunning :: bool
  scheduledHostCallback :: "HostCallback option"
  taskTimeoutId :: int
  startTime_slice :: "int option"
  taskQueue :: "nat list"
  timerQueue :: "nat list"
  objs :: "nat \<Rightarrow> Task"
  clock :: int
  timeouts :: "(int \<times> TimeoutHandler \<times> int) list"
  nextTimeoutId :: int
  postedMessages :: nat
  invoked :: "nat list"

definition frameInterval :: int where
  "frameInterval = 5"

definition noTask :: Task where
  "noTask = \<lparr> id_task = 0, priorityLevel = NormalPriority, callback = None,
              startTime = 0, expirationTime = 0, sortIndex = 0 \<rparr>"

text \<open>The state after the module has been loaded.\<close>

definition initialScheduler :: Scheduler where
  "initialScheduler =
     \<lparr> taskIdCounter = 0,
       isHostCallbackScheduled = False,
       isHostTimeoutScheduled = False,
       isPerformingWork = False,
       isMessageLoopRunning = False,
       scheduledHostCallback = None,
       taskTimeoutId = - 1,
       startTime_slice = None,
       taskQueue = [],
       timerQueue = [],
       objs = (\<lambda>_. noTask),
       clock = 0,
       timeouts = [],
       nextTimeoutId = 1,
       postedMessages = 0,
       invoked = [] \<rparr>"

subsection \<open>The host: clock, timeouts, message channel\<close>

text \<open>
  Modelled from the spec: shared/utils.ts is not among the sources; \<open>getCurrentTime\<close>
  reads the monotonic clock of section 6 of the spec.
\<close>

definition getCurrentTime :: "Scheduler \<Rightarrow> int" where
  "getCurrentTime s = clock s"

definition setTimeout :: "TimeoutHandler \<Rightarrow> int \<Rightarrow> Scheduler \<Rightarrow> int \<times> Scheduler" where
  "setTimeout h ms s =
     (nextTimeoutId s,
      s\<lparr> timeouts := timeouts s @ [(nextTimeoutId s, h, ms)],
         nextTimeoutId := nextTimeoutId s + 1 \<rparr>)"

definition clearTimeout :: "int \<Rightarrow> Scheduler \<Rightarrow> Scheduler" where
  "clearTimeout i s = s\<lparr> timeouts := filter (\<lambda>t. fst t \<noteq> i) (timeouts s) \<rparr>"

text \<open>\<open>channel.port2.postMessage(0)\<close>\<close>

definition schedulePerformWorkUntilDeadline :: "Scheduler \<Rightarrow> Scheduler" where
  "schedulePerformWorkUntilDeadline s = s\<lparr> postedMessages := postedMessages s + 1 \<rparr>"

subsection \<open>The min-heap\<close>

text \<open>
  Modelled from the spec: SchedulerMinHeap.ts is not among the sources. Section 4.2 of
  the spec: an array-backed binary heap ordered by the key (sortIndex, id), compared
  lexicographically; \<open>push\<close> inserts at the end and sifts up while the parent's key is
  greater; \<open>pop\<close> removes and returns the root, moves the last element to the root and
  sifts down, and returns nothing on an empty heap; \<open>peek\<close> returns the root, or
  nothing (\<open>null\<close>, which is what \<open>scheduleCallback\<close> and \<open>workLoop\<close> compare its
  result with) on an empty heap. The keys are read through the references.
\<close>

definition keyLess :: "(nat \<Rightarrow> Task) \<Rightarrow> nat \<Rightarrow> nat \<Rightarrow> bool" where
  "keyLess m a b \<longleftrightarrow>
     sortIndex (m a) < sortIndex (m b) \<or>
     (sortIndex (m a) = sortIndex (m b) \<and> id_task (m a) < id_task (m b))"

text \<open>
  Modelled from the spec: the exchange of two entries of the array that sifting is made
  of (SchedulerMinHeap.ts is not among the sources).
\<close>

definition swap :: "nat list \<Rightarrow> nat \<Rightarrow> nat \<Rightarrow> nat list" where
  "swap h i j = h[i := h ! j, j := h ! i]"

text \<open>
  Modelled from the spec: \<open>push\<close> "sifts up while a parent's key is greater"; the parent
  of the entry at index \<open>i\<close> of a binary heap in an array is at \<open>(i - 1) div 2\<close>.
\<close>

function siftUp :: "(nat \<Rightarrow> Task) \<Rightarrow> nat list \<Rightarrow> nat \<Rightarrow> nat list" where
  "siftUp m h i =
     (if 0 < i \<and> i < length h then
        (let parent = (i - 1) div 2 in
         if keyLess m (h ! i) (h ! parent) then siftUp m (swap h parent i) parent else h)
      else h)"
  by pat_completeness auto

termination
  by (relation "measure (\<lambda>(m, h, i). i)") auto

text \<open>
  Modelled from the spec: \<open>pop\<close> "sifts down, restoring heap order"; the children of the
  entry at index \<open>i\<close> are at \<open>2 i + 1\<close> and \<open>2 i + 2\<close>, and the entry is exchanged with
  the smaller child while that child's key is smaller than its own.
\<close>

function siftDown :: "(nat \<Rightarrow> Task) \<Rightarrow> nat list \<Rightarrow> nat \<Rightarrow> nat list" where
  "siftDown m h i =
     (let left = 2 * i + 1; right = 2 * i + 2 in
      if left < length h \<and> keyLess m (h ! left) (h ! i) then
        (if right < length h \<and> keyLess m (h ! right) (h ! left)
         then siftDown m (swap h i right) right
         else siftDown m (swap h i left) left)
      else if right < length h \<and> keyLess m (h ! right) (h ! i)
        then siftDown m (swap h i right) right
      else h)"
  by pat_completeness auto

termination
  by (relation "measure (\<lambda>(m, h, i). length h - i)") (auto simp: swap_def)

text \<open>
  Modelled from the spec: \<open>peek\<close> returns the root without mutation, or nothing
  (\<open>None\<close>) if the heap is empty.
\<close>

definition peek :: "nat list \<Rightarrow> nat option" where
  "peek h = (case h of [] \<Rightarrow> None | first # _ \<Rightarrow> Some first)"

text \<open>Modelled from the spec: \<open>push\<close> inserts at the end and sifts up.\<close>

definition push :: "(nat \<Rightarrow> Task) \<Rightarrow> nat list \<Rightarrow> nat \<Rightarrow> nat list" where
  "push m h node = siftUp m (h @ [node]) (length h)"

text \<open>
  Modelled from the spec: \<open>pop\<close> removes and returns the root, moves the last element to
  the root position and sifts down; it returns nothing if the heap is empty. The result
  is the returned value and the array after the call.
\<close>

definition pop :: "(nat \<Rightarrow> Task) \<Rightarrow> nat list \<Rightarrow> nat option \<times> nat list" where
  "pop m h =
     (case h of
        [] \<Rightarrow> (None, [])
      | first # rest \<Rightarrow>
          (Some first,
           if rest = [] then [] else siftDown m (last rest # butlast rest) 0))"

subsection \<open>Host timeout and host callback\<close>

definition requestHostTimeout :: "TimeoutHandler \<Rightarrow> int \<Rightarrow> Scheduler \<Rightarrow> Scheduler" where
  "requestHostTimeout handler timeout s =
     (if isHostTimeoutScheduled s = False then
        (let s1 = s\<lparr> isHostTimeoutScheduled := True \<rparr>;
             (i, s2) = setTimeout handler timeout s1
         in s2\<lparr> taskTimeoutId := i \<rparr>)
      else s)"

definition cancelHostTimeout :: "Scheduler \<Rightarrow> Scheduler" where
  "cancelHostTimeout s = (clearTimeout (taskTimeoutId s) s)\<lparr> taskTimeoutId := - 1 \<rparr>"

definition requestHostCallback :: "HostCallback \<Rightarrow> Scheduler \<Rightarrow> Scheduler" where
  "requestHostCallback cb s = s\<lparr> scheduledHostCallback := Some cb \<rparr>"

subsection \<open>scheduleCallback and cancelCallback\<close>

text \<open>
  The parameter \<open>delay\<close> is \<open>options?.delay\<close>, \<open>None\<close> when it is absent;
  \<open>options?.delay || 0\<close> is then 0. The function has no \<open>return\<close> statement: the
  second component of the result is what the call evaluates to, \<open>None\<close> for
  \<open>undefined\<close> and \<open>Some r\<close> for a reference to a task.
\<close>

definition scheduleCallback ::
  "(PriorityLevel \<Rightarrow> int) \<Rightarrow> PriorityLevel \<Rightarrow> callback \<Rightarrow> int option \<Rightarrow> Scheduler
     \<Rightarrow> Scheduler \<times> nat option" where
  "scheduleCallback timeoutOf priority cb delay s =
     (let currentTime = getCurrentTime s;
          startTime' = currentTime + (case delay of None \<Rightarrow> 0 | Some d \<Rightarrow> d);
          expirationTime' = startTime' + timeoutOf priority;
          task = taskIdCounter s;
          s1 = s\<lparr> taskIdCounter := taskIdCounter s + 1,
                  objs := (objs s)(task :=
                    \<lparr> id_task = taskIdCounter s, priorityLevel = priority,
                      callback = Some cb, startTime = startTime',
                      expirationTime = expirationTime', sortIndex = 0 \<rparr>) \<rparr>
      in
        if startTime' > currentTime then
          (let s2 = s1\<lparr> objs := (objs s1)(task := (objs s1 task)\<lparr> sortIndex := startTime' \<rparr>) \<rparr>;
               s3 = s2\<lparr> timerQueue := push (objs s2) (timerQueue s2) task \<rparr>
           in
             if peek (taskQueue s3) = None \<and> peek (timerQueue s3) = Some task then
               (let s4 = (if isHostTimeoutScheduled s3 = True then cancelHostTimeout s3
                          else s3\<lparr> isHostTimeoutScheduled := True \<rparr>)
                in (requestHostTimeout HandleTimeoutFn (startTime' - currentTime) s4, None))
             else (s3, None))
        else
          (let s2 = s1\<lparr> objs := (objs s1)(task := (objs s1 task)\<lparr> sortIndex := expirationTime' \<rparr>) \<rparr>;
               s3 = s2\<lparr> taskQueue := push (objs s2) (taskQueue s2) task \<rparr>
           in
             if \<not> isHostCallbackScheduled s3 \<and> \<not> isPerformingWork s3 then
               (requestHostCallback FlushWork (s3\<lparr> isHostCallbackScheduled := True \<rparr>), None)
             else (s3, None)))"

definition cancelCallback :: "nat \<Rightarrow> Scheduler \<Rightarrow> Scheduler" where
  "cancelCallback task s = s\<lparr> objs := (objs s)(task := (objs s task)\<lparr> callback := None \<rparr>) \<rparr>"

subsection \<open>advanceTimers and handleTimeout\<close>

text \<open>
  The loop of \<open>advanceTimers\<close> pops the delayed queue in every pass that goes on; its
  termination is proved below, once the heap operations are known to shorten the array.
\<close>

function advanceTimers :: "int \<Rightarrow> Scheduler \<Rightarrow> Scheduler" where
  "advanceTimers currentTime s =
     (case peek (timerQueue s) of
        None \<Rightarrow> s
      | Some top' \<Rightarrow>
          if callback (objs s top') = None then
            advanceTimers currentTime
              (s\<lparr> timerQueue := snd (pop (objs s) (timerQueue s)) \<rparr>)
          else if startTime (objs s top') \<le> currentTime then
            advanceTimers currentTime
              (let s1 = s\<lparr> timerQueue := snd (pop (objs s) (timerQueue s)) \<rparr>;
                   s2 = s1\<lparr> objs := (objs s1)(top' :=
                          (objs s1 top')\<lparr> sortIndex := expirationTime (objs s1 top') \<rparr>) \<rparr>
               in s2\<lparr> taskQueue := push (objs s2) (taskQueue s2) top' \<rparr>)
          else s)"
  by pat_completeness auto

definition handleTimeout :: "int \<Rightarrow> Scheduler \<Rightarrow> Scheduler" where
  "handleTimeout currentTime s =
     (let s1 = s\<lparr> isHostTimeoutScheduled := False \<rparr>;
          s2 = advanceTimers currentTime s1
      in
        if \<not> isHostCallbackScheduled s2 then
          (if peek (taskQueue s2) \<noteq> None then
             requestHostCallback FlushWork (s2\<lparr> isHostCallbackScheduled := True \<rparr>)
           else
             (case peek (timerQueue s2) of
                Some top' \<Rightarrow>
                  requestHostTimeout HandleTimeoutFn (startTime (objs s2 top') - currentTime) s2
              | None \<Rightarrow> s2))
        else s2)"

subsection \<open>Calling a callback\<close>

fun runEffect :: "(PriorityLevel \<Rightarrow> int) \<Rightarrow> effect \<Rightarrow> Scheduler \<Rightarrow> Scheduler" where
  "runEffect timeoutOf (Elapse d) s = s\<lparr> clock := clock s + int d \<rparr>"
| "runEffect timeoutOf (Schedule priority cb delay) s =
     fst (scheduleCallback timeoutOf priority cb delay s)"
| "runEffect timeoutOf (Cancel task) s = cancelCallback task s"

text \<open>\<open>callback()\<close>: the effects in order, then how the invocation ends.\<close>

definition call :: "(PriorityLevel \<Rightarrow> int) \<Rightarrow> callback \<Rightarrow> Scheduler \<Rightarrow> Scheduler \<times> outcome" where
  "call timeoutOf cb s = (fold (runEffect timeoutOf) (effects cb) s, ending cb)"

subsection \<open>workLoop, flushWork and the turn driver\<close>

text \<open>
  \<open>getCurrentTime() - startTime >= frameInterval\<close>; while the module-level
  \<open>startTime\<close> is \<open>undefined\<close> the difference is NaN and the comparison is false.
\<close>

definition shouldYieldToHost :: "Scheduler \<Rightarrow> bool" where
  "shouldYieldToHost s =
     (case startTime_slice s of
        None \<Rightarrow> False
      | Some sliceStart \<Rightarrow> getCurrentTime s - sliceStart \<ge> frameInterval)"

text \<open>
  One pass through the body of \<open>while (currentTask)\<close>, for a \<open>currentTask\<close> that is
  not \<open>null\<close>: the pass ends in \<open>break\<close>, in a \<open>return\<close> (or in the exception of the
  callback, which leaves \<open>workLoop\<close>), or at the bottom of the body, from where the loop
  goes on with the new \<open>currentTime\<close>.
\<close>

datatype loopStep =
    Break
  | Return "Scheduler \<times> (exn + bool)"
  | Continue int Scheduler

definition workLoop_body ::
  "(PriorityLevel \<Rightarrow> int) \<Rightarrow> nat \<Rightarrow> int \<Rightarrow> Scheduler \<Rightarrow> loopStep" where
  "workLoop_body timeoutOf currentTask currentTime s =
     (if expirationTime (objs s currentTask) > currentTime \<and> shouldYieldToHost s then Break
      else
        (case callback (objs s currentTask) of
           None \<Rightarrow> Continue currentTime (s\<lparr> taskQueue := snd (pop (objs s) (taskQueue s)) \<rparr>)
         | Some cb \<Rightarrow>
             (let s1 = s\<lparr> objs := (objs s)(currentTask :=
                            (objs s currentTask)\<lparr> callback := None \<rparr>) \<rparr>;
                  (s2, continuationCallback) =
                     call timeoutOf cb (s1\<lparr> invoked := invoked s1 @ [currentTask] \<rparr>)
              in
                (case continuationCallback of
                   Throws \<Rightarrow> Return (s2, Inl CallbackError)
                 | ReturnsFunction k \<Rightarrow>
                     (let currentTime' = getCurrentTime s2;
                          s3 = s2\<lparr> objs := (objs s2)(currentTask :=
                                   (objs s2 currentTask)\<lparr> callback := Some k \<rparr>) \<rparr>
                      in Return (advanceTimers currentTime' s3, Inr True))
                 | ReturnsOther \<Rightarrow>
                     (let currentTime' = getCurrentTime s2;
                          s3 = (if peek (taskQueue s2) = Some currentTask
                                then s2\<lparr> taskQueue := snd (pop (objs s2) (taskQueue s2)) \<rparr>
                                else s2)
                      in Continue currentTime' (advanceTimers currentTime' s3))))))"

text \<open>
  The code after the loop, with the value \<open>currentTask\<close> has there (\<open>None\<close> for
  \<open>null\<close>).
\<close>

definition workLoop_after :: "nat option \<Rightarrow> int \<Rightarrow> Scheduler \<Rightarrow> Scheduler \<times> (exn + bool)" where
  "workLoop_after currentTask currentTime s =
     (if currentTask \<noteq> None then (s, Inr True)
      else
        (case peek (taskQueue s) of
           Some top' \<Rightarrow>
             (requestHostTimeout FlushWorkFn (startTime (objs s top') - currentTime) s, Inr False)
         | None \<Rightarrow> (s, Inr False)))"

text \<open>
  The loop \<open>while (currentTask)\<close> and the code after it. At the head of the loop
  \<open>currentTask\<close> is \<open>peek(taskQueue)\<close>: it is read there before the loop and at the
  bottom of the body. The termination proof follows the lemmas on the measure, below.
\<close>

function workLoop_while ::
  "(PriorityLevel \<Rightarrow> int) \<Rightarrow> int \<Rightarrow> Scheduler \<Rightarrow> Scheduler \<times> (exn + bool)" where
  "workLoop_while timeoutOf currentTime s =
     (case peek (taskQueue s) of
        None \<Rightarrow> workLoop_after None currentTime s
      | Some currentTask \<Rightarrow>
          (case workLoop_body timeoutOf currentTask currentTime s of
             Break \<Rightarrow> workLoop_after (Some currentTask) currentTime s
           | Return r \<Rightarrow> r
           | Continue currentTime' s' \<Rightarrow> workLoop_while timeoutOf currentTime' s'))"
  by pat_completeness auto

definition workLoop ::
  "(PriorityLevel \<Rightarrow> int) \<Rightarrow> bool \<Rightarrow> int \<Rightarrow> Scheduler \<Rightarrow> Scheduler \<times> (exn + bool)" where
  "workLoop timeoutOf hasTimeRemaining initialTime s =
     (let currentTime = initialTime;
          s1 = advanceTimers currentTime s
      in workLoop_while timeoutOf currentTime s1)"

text \<open>
  \<open>try { return workLoop(...) } finally { isPerformingWork = false }\<close>: the flag is
  reset on the state \<open>workLoop\<close> leaves, whether it returned (\<open>Inr\<close>) or the callback
  threw (\<open>Inl\<close>), and the result or the exception is passed on.
\<close>

definition flushWork ::
  "(PriorityLevel \<Rightarrow> int) \<Rightarrow> bool \<Rightarrow> int \<Rightarrow> Scheduler \<Rightarrow> Scheduler \<times> (exn + bool)" where
  "flushWork timeoutOf hasTimeRemaining initialTime s =
     (let s1 = s\<lparr> isHostCallbackScheduled := False \<rparr>;
          s2 = (if isHostTimeoutScheduled s1
                then cancelHostTimeout (s1\<lparr> isHostTimeoutScheduled := False \<rparr>)
                else s1);
          s3 = s2\<lparr> isPerformingWork := True \<rparr>;
          (s4, r) = workLoop timeoutOf hasTimeRemaining initialTime s3
      in (s4\<lparr> isPerformingWork := False \<rparr>, r))"

text \<open>
  The handler of \<open>channel.port1.onmessage\<close>. \<open>hasMoreWork\<close> starts as \<open>true\<close> and is
  assigned only if the host callback returns, so after an exception the \<open>finally\<close>
  block posts the next message; the second component is the exception that leaves the
  handler, if any.
\<close>

definition performWorkUntilDealine ::
  "(PriorityLevel \<Rightarrow> int) \<Rightarrow> Scheduler \<Rightarrow> Scheduler \<times> exn option" where
  "performWorkUntilDealine timeoutOf s =
     (case scheduledHostCallback s of
        Some FlushWork \<Rightarrow>
          (let currentTime = getCurrentTime s;
               s1 = s\<lparr> startTime_slice := Some currentTime \<rparr>;
               hasTimeRemaining = True;
               (s2, r) = flushWork timeoutOf hasTimeRemaining currentTime s1;
               hasMoreWork = (case r of Inl e \<Rightarrow> True | Inr b \<Rightarrow> b);
               s3 = (if hasMoreWork then schedulePerformWorkUntilDeadline s2
                     else s2\<lparr> isMessageLoopRunning := False, scheduledHostCallback := None \<rparr>)
           in (s3, case r of Inl e \<Rightarrow> Some e | Inr b \<Rightarrow> None))
      | None \<Rightarrow> (s\<lparr> isMessageLoopRunning := False \<rparr>, None))"

subsection \<open>The scheduler in its environment\<close>

text \<open>
  What can happen to the module between two of its own steps: time passes, a caller
  uses the public API, the host delivers a message to \<open>port1\<close> (it runs
  \<open>performWorkUntilDealine\<close>) or fires the timeout armed with \<open>handleTimeout\<close> (it runs
  \<open>handleTimeout(getCurrentTime())\<close>). The host is left free to do the last two at any
  moment, which includes every run of a real host. An exception that leaves the message
  handler is reported by the host and the module goes on from the state it left.
\<close>

datatype event =
    Tick nat
  | CallSchedule PriorityLevel callback "int option"
  | CallCancel nat
  | Message
  | Timeout

fun step :: "(PriorityLevel \<Rightarrow> int) \<Rightarrow> event \<Rightarrow> Scheduler \<Rightarrow> Scheduler" where
  "step timeoutOf (Tick d) s = s\<lparr> clock := clock s + int d \<rparr>"
| "step timeoutOf (CallSchedule priority cb delay) s =
     fst (scheduleCallback timeoutOf priority cb delay s)"
| "step timeoutOf (CallCancel task) s = cancelCallback task s"
| "step timeoutOf Message s = fst (performWorkUntilDealine timeoutOf s)"
| "step timeoutOf Timeout s = handleTimeout (getCurrentTime s) s"

definition run :: "(PriorityLevel \<Rightarrow> int) \<Rightarrow> event list \<Rightarrow> Scheduler \<Rightarrow> Scheduler" where
  "run timeoutOf evs s = fold (step timeoutOf) evs s"

section \<open>Notions for the proofs\<close>

subsection \<open>Start time of a submission\<close>

text \<open>\<open>currentTime + (options?.delay || 0)\<close>, as \<open>scheduleCallback\<close> computes it.\<close>

definition startTimeOf :: "int option \<Rightarrow> Scheduler \<Rightarrow> int" where
  "startTimeOf delay s = clock s + (case delay of None \<Rightarrow> 0 | Some d \<Rightarrow> d)"

subsection \<open>The measure of the work loop\<close>

text \<open>
  The body of the loop may push tasks (a callback that schedules) and pops at most one,
  so the length of the ready queue is no measure. What decreases is the number of
  entries of the two queues plus the weight of the callbacks still held by the tasks
  in them: calling a callback empties its slot, and what the call schedules weighs less
  than the callback did.
\<close>

primrec cbWeight :: "callback \<Rightarrow> nat"
  and effWeight :: "effect \<Rightarrow> nat"
  and outWeight :: "outcome \<Rightarrow> nat" where
  "cbWeight (Callback es out) = Suc (sum_list (map effWeight es) + outWeight out)"
| "effWeight (Elapse d) = 0"
| "effWeight (Schedule p cb delay) = Suc (cbWeight cb)"
| "effWeight (Cancel task) = 0"
| "outWeight ReturnsOther = 0"
| "outWeight (ReturnsFunction k) = cbWeight k"
| "outWeight Throws = 0"

definition slotWeight :: "Scheduler \<Rightarrow> nat \<Rightarrow> nat" where
  "slotWeight s r = (case callback (objs s r) of None \<Rightarrow> 0 | Some cb \<Rightarrow> cbWeight cb)"

definition queued :: "Scheduler \<Rightarrow> nat set" where
  "queued s = set (taskQueue s) \<union> set (timerQueue s)"

definition pending :: "Scheduler \<Rightarrow> nat" where
  "pending s = length (taskQueue s) + length (timerQueue s) + sum (slotWeight s) (queued s)"

subsection \<open>The state after a call\<close>

text \<open>The state in which \<open>callback()\<close> has just ended, for the callback \<open>cb\<close> of \<open>currentTask\<close>.\<close>

definition called :: "(PriorityLevel \<Rightarrow> int) \<Rightarrow> nat \<Rightarrow> callback \<Rightarrow> Scheduler \<Rightarrow> Scheduler" where
  "called timeoutOf currentTask cb s =
     fold (runEffect timeoutOf) (effects cb)
       (s\<lparr> objs := (objs s)(currentTask := (objs s currentTask)\<lparr> callback := None \<rparr>),
          invoked := invoked s @ [currentTask] \<rparr>)"

subsection \<open>State properties kept by every operation\<close>

text \<open>
  The properties proved below of all runs depend on the queues, the task objects, the
  clock, the counter and the list of invocations only, and each is kept by the few
  elementary changes the module makes to these. \<open>sameCore\<close> relates two states that
  agree on them; \<open>upheld P\<close> collects what has to be shown of a property \<open>P\<close> once, so
  that every function of the module keeps it.
\<close>

definition sameCore :: "Scheduler \<Rightarrow> Scheduler \<Rightarrow> bool" where
  "sameCore s s' \<longleftrightarrow>
     taskQueue s' = taskQueue s \<and> timerQueue s' = timerQueue s \<and> objs s' = objs s \<and>
     clock s' = clock s \<and> invoked s' = invoked s \<and> taskIdCounter s' = taskIdCounter s"

definition upheld :: "(PriorityLevel \<Rightarrow> int) \<Rightarrow> (Scheduler \<Rightarrow> bool) \<Rightarrow> bool" where
  "upheld timeoutOf P \<longleftrightarrow>
     (\<forall>s s'. P s \<longrightarrow> sameCore s s' \<longrightarrow> P s') \<and>
     (\<forall>s p cb delay. P s \<longrightarrow> P (fst (scheduleCallback timeoutOf p cb delay s))) \<and>
     (\<forall>s task. P s \<longrightarrow> P (cancelCallback task s)) \<and>
     (\<forall>s d. P s \<longrightarrow> P (s\<lparr> clock := clock s + int d \<rparr>)) \<and>
     (\<forall>s. P s \<longrightarrow> P (s\<lparr> taskQueue := snd (pop (objs s) (taskQueue s)) \<rparr>)) \<and>
     (\<forall>s currentTime. P s \<longrightarrow> currentTime \<le> clock s \<longrightarrow> P (advanceTimers currentTime s)) \<and>
     (\<forall>s task cb. P s \<longrightarrow> callback (objs s task) = Some cb \<longrightarrow>
        P (s\<lparr> objs := (objs s)(task := (objs s task)\<lparr> callback := None \<rparr>),
             invoked := invoked s @ [task] \<rparr>)) \<and>
     (\<forall>s task cb s' k. P s \<longrightarrow> callback (objs s task) = Some cb \<longrightarrow> P s' \<longrightarrow>
        P (s'\<lparr> objs := (objs s')(task := (objs s' task)\<lparr> callback := Some k \<rparr>) \<rparr>))"

subsection \<open>Two such properties\<close>

text \<open>
  Every reference in a queue is below the counter (it is the reference of a task that
  was created), and every task in the ready queue has a start time that the clock has
  reached.
\<close>

definition readyInv :: "Scheduler \<Rightarrow> bool" where
  "readyInv s \<longleftrightarrow>
     (\<forall>r \<in> queued s. r < taskIdCounter s) \<and>
     (\<forall>r \<in> set (taskQueue s). startTime (objs s r) \<le> clock s)"

text \<open>
  \<open>tracked task T dead n\<close>: the task exists and starts at \<open>T\<close>; and, when \<open>dead\<close>, its
  callback slot is empty and it has been invoked \<open>n\<close> times.
\<close>

definition tracked :: "nat \<Rightarrow> int \<Rightarrow> bool \<Rightarrow> nat \<Rightarrow> Scheduler \<Rightarrow> bool" where
  "tracked task T dead n s \<longleftrightarrow>
     task < taskIdCounter s \<and> startTime (objs s task) = T \<and>
     (dead \<longrightarrow> callback (objs s task) = None \<and> count_list (invoked s) task = n)"

subsection \<open>Concrete states\<close>

text \<open>
  A delayed queue with a cancelled task (start 5), a live task that is due (start 10)
  and a live task that is not (start 30), at time 20.
\<close>

definition threeTimers :: Scheduler where
  "threeTimers =
     initialScheduler
       \<lparr> taskIdCounter := 3, clock := 20,
         timerQueue := [0, 1, 2],
         objs := (\<lambda>_. noTask)
           (0 := \<lparr> id_task = 0, priorityLevel = NormalPriority, callback = None,
                   startTime = 5, expirationTime = 5005, sortIndex = 5 \<rparr>,
            1 := \<lparr> id_task = 1, priorityLevel = NormalPriority,
                   callback = Some (Callback [] ReturnsOther),
                   startTime = 10, expirationTime = 5010, sortIndex = 10 \<rparr>,
            2 := \<lparr> id_task = 2, priorityLevel = NormalPriority,
                   callback = Some (Callback [] ReturnsOther),
                   startTime = 30, expirationTime = 5030, sortIndex = 30 \<rparr>) \<rparr>"

text \<open>A task without delay, submitted to the freshly loaded module.\<close>

definition oneReady :: Scheduler where
  "oneReady = fst (scheduleCallback (\<lambda>p. 5000) NormalPriority (Callback [Elapse 1] ReturnsOther)
                     None initialScheduler)"

text \<open>A task without delay whose callback throws, submitted to the freshly loaded module.\<close>

definition oneThrowing :: Scheduler where
  "oneThrowing =
     fst (scheduleCallback (\<lambda>p. 5000) NormalPriority (Callback [Elapse 1] Throws) None
            initialScheduler)"

text \<open>One ready task; the slice started at 0 and the clock is at 7.\<close>

definition sliceUsedUp :: "(PriorityLevel \<Rightarrow> int) \<Rightarrow> Scheduler" where
  "sliceUsedUp timeoutOf =
     (fst (scheduleCallback timeoutOf NormalPriority (Callback [Elapse 1] ReturnsOther) None
             initialScheduler))\<lparr> startTime_slice := Some 0, clock := 7 \<rparr>"

text \<open>
  Two ready tasks; the callback of the first returns a continuation.
\<close>

definition twoReady :: Scheduler where
  "twoReady =
     fst (scheduleCallback (\<lambda>p. 5000) NormalPriority (Callback [] ReturnsOther) None
       (fst (scheduleCallback (\<lambda>p. 5000) NormalPriority
               (Callback [Elapse 1] (ReturnsFunction (Callback [Elapse 2] ReturnsOther))) None
               initialScheduler)))"

text \<open>
  Two ready tasks; the callback of the first cancels the second, between two stretches
  of work.
\<close>

definition cancelsNext :: Scheduler where
  "cancelsNext =
     fst (scheduleCallback (\<lambda>p. 5000) NormalPriority (Callback [Elapse 1] ReturnsOther) None
       (fst (scheduleCallback (\<lambda>p. 5000) NormalPriority
               (Callback [Elapse 1, Cancel 1, Elapse 1] ReturnsOther) None
               initialScheduler)))"

text \<open>The same two tasks, without the cancellation.\<close>

definition runsBoth :: Scheduler where
  "runsBoth =
     fst (scheduleCallback (\<lambda>p. 5000) NormalPriority (Callback [Elapse 1] ReturnsOther) None
       (fst (scheduleCallback (\<lambda>p. 5000) NormalPriority
               (Callback [Elapse 1, Elapse 1] ReturnsOther) None
               initialScheduler)))"

text \<open>One ready task whose callback cancels its own task and returns a continuation.\<close>

definition cancelsItself :: Scheduler where
  "cancelsItself =
     fst (scheduleCallback (\<lambda>p. 5000) NormalPriority
            (Callback [Cancel 0] (ReturnsFunction (Callback [] ReturnsOther))) None
            initialScheduler)"

section \<open>Lemmas\<close>

subsection \<open>The heap operations permute references\<close>

declare siftUp.simps [simp del] siftDown.simps [simp del]

lemma length_swap [simp]: "length (swap h i j) = length h"
  by (simp add: swap_def)

lemma mset_swap_heap: "i < length h \<Longrightarrow> j < length h \<Longrightarrow> mset (swap h i j) = mset h"
  unfolding swap_def by (simp add: mset_swap)

lemma mset_siftUp [simp]: "mset (siftUp m h i) = mset h"
proof (induction m h i rule: siftUp.induct)
  case (1 m h i)
  show ?case
  proof (cases "0 < i \<and> i < length h \<and> keyLess m (h ! i) (h ! ((i - 1) div 2))")
    case True
    then have "mset (siftUp m (swap h ((i - 1) div 2) i) ((i - 1) div 2)) = mset (swap h ((i - 1) div 2) i)"
      using "1.IH" by simp
    moreover have "mset (swap h ((i - 1) div 2) i) = mset h"
      using True by (intro mset_swap_heap) auto
    ultimately show ?thesis
      using True by (subst siftUp.simps) (simp add: Let_def)
  next
    case False
    then show ?thesis
      by (subst siftUp.simps) (auto simp: Let_def)
  qed
qed

lemma mset_siftDown [simp]: "mset (siftDown m h i) = mset h"
proof (induction m h i rule: siftDown.induct)
  case (1 m h i)
  define l where "l = 2 * i + 1"
  define r where "r = 2 * i + 2"
  have sw: "j < length h \<Longrightarrow> i < j \<Longrightarrow> mset (swap h i j) = mset h" for j
    by (intro mset_swap_heap) auto
  consider
      (right1) "l < length h" "keyLess m (h ! l) (h ! i)" "r < length h" "keyLess m (h ! r) (h ! l)"
    | (left) "l < length h" "keyLess m (h ! l) (h ! i)" "\<not> (r < length h \<and> keyLess m (h ! r) (h ! l))"
    | (right2) "\<not> (l < length h \<and> keyLess m (h ! l) (h ! i))" "r < length h" "keyLess m (h ! r) (h ! i)"
    | (stop) "\<not> (l < length h \<and> keyLess m (h ! l) (h ! i))" "\<not> (r < length h \<and> keyLess m (h ! r) (h ! i))"
    by blast
  then show ?case
  proof cases
    case right1
    then have "siftDown m h i = siftDown m (swap h i r) r"
      by (subst siftDown.simps) (simp add: Let_def l_def r_def)
    moreover have "mset (siftDown m (swap h i r) r) = mset (swap h i r)"
      using "1.IH"(1) [OF l_def r_def] right1 by (simp add: l_def r_def)
    ultimately show ?thesis
      using sw [of r] right1 by (simp add: r_def)
  next
    case left
    then have "siftDown m h i = siftDown m (swap h i l) l"
      by (subst siftDown.simps) (auto simp: Let_def l_def r_def)
    moreover have "mset (siftDown m (swap h i l) l) = mset (swap h i l)"
      using "1.IH"(2) [OF l_def r_def] left by (simp add: l_def r_def)
    ultimately show ?thesis
      using sw [of l] left by (simp add: l_def)
  next
    case right2
    then have "siftDown m h i = siftDown m (swap h i r) r"
      by (subst siftDown.simps) (simp add: Let_def l_def r_def)
    moreover have "mset (siftDown m (swap h i r) r) = mset (swap h i r)"
      using "1.IH"(3) [OF l_def r_def] right2 by (simp add: l_def r_def)
    ultimately show ?thesis
      using sw [of r] right2 by (simp add: r_def)
  next
    case stop
    then have "siftDown m h i = h"
      by (subst siftDown.simps) (auto simp: Let_def l_def r_def)
    then show ?thesis by simp
  qed
qed

lemma mset_push [simp]: "mset (push m h node) = add_mset node (mset h)"
  by (simp add: push_def)

lemma mset_last_butlast: "rest \<noteq> [] \<Longrightarrow> mset (last rest # butlast rest) = mset rest"
proof -
  assume "rest \<noteq> []"
  then have "rest = butlast rest @ [last rest]"
    by simp
  then have "mset rest = mset (butlast rest @ [last rest])"
    by simp
  then show ?thesis
    by simp
qed

lemma mset_pop: "h \<noteq> [] \<Longrightarrow> mset (snd (pop m h)) = mset (tl h)"
  using mset_last_butlast by (cases h) (auto simp: pop_def)

lemma set_push [simp]: "set (push m h node) = insert node (set h)"
proof -
  have "set_mset (mset (push m h node)) = insert node (set h)"
    by simp
  then show ?thesis
    by (simp only: set_mset_mset)
qed

lemma length_push [simp]: "length (push m h node) = Suc (length h)"
proof -
  have "size (mset (push m h node)) = Suc (length h)"
    by simp
  then show ?thesis
    by (simp only: size_mset)
qed

lemma set_pop_subset: "set (snd (pop m h)) \<subseteq> set h"
proof (cases "h = []")
  case True
  then show ?thesis by (simp add: pop_def)
next
  case False
  then have "mset (snd (pop m h)) = mset (tl h)"
    by (rule mset_pop)
  then have "set_mset (mset (snd (pop m h))) = set_mset (mset (tl h))"
    by (rule arg_cong)
  then have "set (snd (pop m h)) = set (tl h)"
    by (simp only: set_mset_mset)
  then show ?thesis
    using False by (auto dest: list.set_sel(2))
qed

lemma length_pop: "h \<noteq> [] \<Longrightarrow> Suc (length (snd (pop m h))) = length h"
proof -
  assume ne: "h \<noteq> []"
  then have "mset (snd (pop m h)) = mset (tl h)"
    by (rule mset_pop)
  then have "size (mset (snd (pop m h))) = size (mset (tl h))"
    by (rule arg_cong)
  then have "length (snd (pop m h)) = length (tl h)"
    by (simp only: size_mset)
  with ne show ?thesis by simp
qed

lemma peek_Some_iff: "peek h = Some r \<longleftrightarrow> h \<noteq> [] \<and> hd h = r"
  by (cases h) (auto simp: peek_def)

lemma peek_None_iff: "peek h = None \<longleftrightarrow> h = []"
  by (cases h) (auto simp: peek_def)

lemma peek_in_set: "peek h = Some r \<Longrightarrow> r \<in> set h"
  by (cases h) (auto simp: peek_def)

lemma fst_pop: "fst (pop m h) = peek h"
  by (cases h) (auto simp: pop_def peek_def)

subsection \<open>Termination of advanceTimers\<close>

termination advanceTimers
proof (relation "measure (\<lambda>(currentTime, s). length (timerQueue s))")
  show "wf (measure (\<lambda>(currentTime, s). length (timerQueue s)))"
    by simp
next
  fix currentTime :: int and s :: Scheduler and top' :: nat
  assume "peek (timerQueue s) = Some top'"
  then have "timerQueue s \<noteq> []"
    by (simp add: peek_Some_iff)
  then have "length (snd (pop (objs s) (timerQueue s))) < length (timerQueue s)"
    using length_pop [of "timerQueue s" "objs s"] by simp
  then show "((currentTime, s\<lparr>timerQueue := snd (pop (objs s) (timerQueue s))\<rparr>), currentTime, s)
       \<in> measure (\<lambda>(currentTime, s). length (timerQueue s))"
    by simp
  then show "((currentTime,
         let s1 = s\<lparr>timerQueue := snd (pop (objs s) (timerQueue s))\<rparr>;
             s2 = s1\<lparr>objs := (objs s1)(top' := (objs s1 top')\<lparr>sortIndex := expirationTime (objs s1 top')\<rparr>)\<rparr>
         in s2\<lparr>taskQueue := push (objs s2) (taskQueue s2) top'\<rparr>),
        currentTime, s) \<in> measure (\<lambda>(currentTime, s). length (timerQueue s))"
    by (simp add: Let_def)
qed

declare advanceTimers.simps [simp del]

subsection \<open>Frame lemmas\<close>

lemma requestHostTimeout_frame [simp]:
  "taskQueue (requestHostTimeout h t s) = taskQueue s"
  "timerQueue (requestHostTimeout h t s) = timerQueue s"
  "objs (requestHostTimeout h t s) = objs s"
  "clock (requestHostTimeout h t s) = clock s"
  "invoked (requestHostTimeout h t s) = invoked s"
  "taskIdCounter (requestHostTimeout h t s) = taskIdCounter s"
  by (simp_all add: requestHostTimeout_def setTimeout_def)

lemma cancelHostTimeout_frame [simp]:
  "taskQueue (cancelHostTimeout s) = taskQueue s"
  "timerQueue (cancelHostTimeout s) = timerQueue s"
  "objs (cancelHostTimeout s) = objs s"
  "clock (cancelHostTimeout s) = clock s"
  "invoked (cancelHostTimeout s) = invoked s"
  "taskIdCounter (cancelHostTimeout s) = taskIdCounter s"
  by (simp_all add: cancelHostTimeout_def clearTimeout_def)

lemma requestHostCallback_frame [simp]:
  "taskQueue (requestHostCallback h s) = taskQueue s"
  "timerQueue (requestHostCallback h s) = timerQueue s"
  "objs (requestHostCallback h s) = objs s"
  "clock (requestHostCallback h s) = clock s"
  "invoked (requestHostCallback h s) = invoked s"
  "taskIdCounter (requestHostCallback h s) = taskIdCounter s"
  by (simp_all add: requestHostCallback_def)

text \<open>What \<open>scheduleCallback\<close> does to the queues, the store, the counter and the clock.\<close>

lemma scheduleCallback_counter [simp]:
  "taskIdCounter (fst (scheduleCallback timeoutOf p cb delay s)) = Suc (taskIdCounter s)"
  by (simp add: scheduleCallback_def Let_def)

lemma scheduleCallback_clock [simp]:
  "clock (fst (scheduleCallback timeoutOf p cb delay s)) = clock s"
  by (simp add: scheduleCallback_def Let_def)

lemma scheduleCallback_invoked [simp]:
  "invoked (fst (scheduleCallback timeoutOf p cb delay s)) = invoked s"
  by (simp add: scheduleCallback_def Let_def)

lemma scheduleCallback_objs:
  "objs (fst (scheduleCallback timeoutOf p cb delay s)) =
     (objs s)(taskIdCounter s :=
        \<lparr> id_task = taskIdCounter s, priorityLevel = p, callback = Some cb,
          startTime = startTimeOf delay s,
          expirationTime = startTimeOf delay s + timeoutOf p,
          sortIndex = (if startTimeOf delay s > clock s then startTimeOf delay s
                       else startTimeOf delay s + timeoutOf p) \<rparr>)"
  by (simp add: scheduleCallback_def Let_def getCurrentTime_def startTimeOf_def)

lemma scheduleCallback_delayed:
  assumes "startTimeOf delay s > clock s"
  shows "taskQueue (fst (scheduleCallback timeoutOf p cb delay s)) = taskQueue s"
    and "timerQueue (fst (scheduleCallback timeoutOf p cb delay s)) =
           push (objs (fst (scheduleCallback timeoutOf p cb delay s))) (timerQueue s) (taskIdCounter s)"
  using assms by (simp_all add: scheduleCallback_def Let_def getCurrentTime_def startTimeOf_def)

lemma scheduleCallback_ready:
  assumes "\<not> startTimeOf delay s > clock s"
  shows "timerQueue (fst (scheduleCallback timeoutOf p cb delay s)) = timerQueue s"
    and "taskQueue (fst (scheduleCallback timeoutOf p cb delay s)) =
           push (objs (fst (scheduleCallback timeoutOf p cb delay s))) (taskQueue s) (taskIdCounter s)"
  using assms by (simp_all add: scheduleCallback_def Let_def getCurrentTime_def startTimeOf_def)

subsection \<open>Termination of the work loop\<close>

lemma finite_queued [simp]: "finite (queued s)"
  by (simp add: queued_def)

lemma sum_slots_mono:
  assumes "queued s' \<subseteq> queued s" and "\<And>r. slotWeight s' r \<le> slotWeight s r"
  shows "sum (slotWeight s') (queued s') \<le> sum (slotWeight s) (queued s)"
proof -
  have "sum (slotWeight s') (queued s') \<le> sum (slotWeight s) (queued s')"
    by (rule sum_mono) (rule assms(2))
  also have "\<dots> \<le> sum (slotWeight s) (queued s)"
    by (rule sum_mono2) (use assms(1) in auto)
  finally show ?thesis .
qed

lemma sum_slots_insert:
  fixes f f' :: "nat \<Rightarrow> nat"
  assumes "finite A" and "\<And>r. r \<noteq> t \<Longrightarrow> f' r = f r"
  shows "sum f' (insert t A) \<le> f' t + sum f A"
proof -
  have "sum f' (insert t A) = f' t + sum f' (A - {t})"
    using assms(1) by (rule sum.insert_remove)
  also have "sum f' (A - {t}) = sum f (A - {t})"
    by (rule sum.cong) (use assms(2) in auto)
  also have "sum f (A - {t}) \<le> sum f A"
    by (rule sum_mono2) (use assms(1) in auto)
  finally show ?thesis by simp
qed

lemma advanceTimers_invariant:
  assumes "P s"
    and "\<And>s top'. \<lbrakk>P s; peek (timerQueue s) = Some top'; callback (objs s top') = None\<rbrakk>
           \<Longrightarrow> P (s\<lparr> timerQueue := snd (pop (objs s) (timerQueue s)) \<rparr>)"
    and "\<And>s top'. \<lbrakk>P s; peek (timerQueue s) = Some top'; callback (objs s top') \<noteq> None;
             startTime (objs s top') \<le> currentTime\<rbrakk>
           \<Longrightarrow> P (s\<lparr> timerQueue := snd (pop (objs s) (timerQueue s)),
                   objs := (objs s)(top' := (objs s top')\<lparr> sortIndex := expirationTime (objs s top') \<rparr>),
                   taskQueue := push ((objs s)(top' := (objs s top')\<lparr> sortIndex := expirationTime (objs s top') \<rparr>))
                                  (taskQueue s) top' \<rparr>)"
  shows "P (advanceTimers currentTime s)"
  using assms
proof (induction currentTime s rule: advanceTimers.induct)
  case (1 currentTime s)
  note start = "1.prems"(1) and discard = "1.prems"(2) and promote = "1.prems"(3)
  show ?case
  proof (cases "peek (timerQueue s)")
    case None
    then show ?thesis
      using start by (subst advanceTimers.simps) simp
  next
    case (Some top')
    show ?thesis
    proof (cases "callback (objs s top') = None")
      case True
      have "P (advanceTimers currentTime (s\<lparr> timerQueue := snd (pop (objs s) (timerQueue s)) \<rparr>))"
        by (rule "1.IH"(1) [OF Some True discard [OF start Some True] discard promote])
      then show ?thesis
        using Some True by (subst advanceTimers.simps) simp
    next
      case False
      show ?thesis
      proof (cases "startTime (objs s top') \<le> currentTime")
        case le: True
        have "P (advanceTimers currentTime
                  (let s1 = s\<lparr> timerQueue := snd (pop (objs s) (timerQueue s)) \<rparr>;
                       s2 = s1\<lparr> objs := (objs s1)(top' :=
                              (objs s1 top')\<lparr> sortIndex := expirationTime (objs s1 top') \<rparr>) \<rparr>
                   in s2\<lparr> taskQueue := push (objs s2) (taskQueue s2) top' \<rparr>))"
        proof (rule "1.IH"(2) [OF Some False le _ discard promote])
          have eq: "(let s1 = s\<lparr> timerQueue := snd (pop (objs s) (timerQueue s)) \<rparr>;
                       s2 = s1\<lparr> objs := (objs s1)(top' :=
                              (objs s1 top')\<lparr> sortIndex := expirationTime (objs s1 top') \<rparr>) \<rparr>
                   in s2\<lparr> taskQueue := push (objs s2) (taskQueue s2) top' \<rparr>) =
                s\<lparr> timerQueue := snd (pop (objs s) (timerQueue s)),
                   objs := (objs s)(top' := (objs s top')\<lparr> sortIndex := expirationTime (objs s top') \<rparr>),
                   taskQueue := push ((objs s)(top' := (objs s top')\<lparr> sortIndex := expirationTime (objs s top') \<rparr>))
                                  (taskQueue s) top' \<rparr>"
            by (simp add: Let_def)
          show "P (let s1 = s\<lparr> timerQueue := snd (pop (objs s) (timerQueue s)) \<rparr>;
                       s2 = s1\<lparr> objs := (objs s1)(top' :=
                              (objs s1 top')\<lparr> sortIndex := expirationTime (objs s1 top') \<rparr>) \<rparr>
                   in s2\<lparr> taskQueue := push (objs s2) (taskQueue s2) top' \<rparr>)"
            unfolding eq by (rule promote [OF start Some False le])
        qed
        then show ?thesis
          using Some False le by (subst advanceTimers.simps) auto
      next
        case gt: False
        then show ?thesis
          using Some False start by (subst advanceTimers.simps) auto
      qed
    qed
  qed
qed

lemma slotWeight_sortIndex [simp]:
  "slotWeight (s\<lparr> objs := (objs s)(r := (objs s r)\<lparr> sortIndex := v \<rparr>) \<rparr>) = slotWeight s"
  by (rule ext) (simp add: slotWeight_def)

lemma pending_pop_timer:
  assumes "peek (timerQueue s) = Some top'"
  shows "pending (s\<lparr> timerQueue := snd (pop (objs s) (timerQueue s)) \<rparr>) < pending s"
proof -
  let ?s' = "s\<lparr> timerQueue := snd (pop (objs s) (timerQueue s)) \<rparr>"
  have ne: "timerQueue s \<noteq> []"
    using assms by (simp add: peek_Some_iff)
  have "queued ?s' \<subseteq> queued s"
    using set_pop_subset [of "objs s" "timerQueue s"] by (auto simp: queued_def)
  moreover have "slotWeight ?s' = slotWeight s"
    by (rule ext) (simp add: slotWeight_def)
  ultimately have "sum (slotWeight ?s') (queued ?s') \<le> sum (slotWeight s) (queued s)"
    by (intro sum_slots_mono) simp_all
  then show ?thesis
    using length_pop [OF ne, of "objs s"] by (simp add: pending_def)
qed

lemma pending_pop_task:
  assumes "peek (taskQueue s) = Some task"
  shows "pending (s\<lparr> taskQueue := snd (pop (objs s) (taskQueue s)) \<rparr>) < pending s"
proof -
  let ?s' = "s\<lparr> taskQueue := snd (pop (objs s) (taskQueue s)) \<rparr>"
  have ne: "taskQueue s \<noteq> []"
    using assms by (simp add: peek_Some_iff)
  have "queued ?s' \<subseteq> queued s"
    using set_pop_subset [of "objs s" "taskQueue s"] by (auto simp: queued_def)
  moreover have "slotWeight ?s' = slotWeight s"
    by (rule ext) (simp add: slotWeight_def)
  ultimately have "sum (slotWeight ?s') (queued ?s') \<le> sum (slotWeight s) (queued s)"
    by (intro sum_slots_mono) simp_all
  then show ?thesis
    using length_pop [OF ne, of "objs s"] by (simp add: pending_def)
qed

lemma pending_promote:
  assumes "peek (timerQueue s) = Some top'"
  shows "pending (s\<lparr> timerQueue := snd (pop (objs s) (timerQueue s)),
                   objs := (objs s)(top' := (objs s top')\<lparr> sortIndex := v \<rparr>),
                   taskQueue := push m (taskQueue s) top' \<rparr>) \<le> pending s"
proof -
  let ?s' = "s\<lparr> timerQueue := snd (pop (objs s) (timerQueue s)),
                   objs := (objs s)(top' := (objs s top')\<lparr> sortIndex := v \<rparr>),
                   taskQueue := push m (taskQueue s) top' \<rparr>"
  have ne: "timerQueue s \<noteq> []"
    using assms by (simp add: peek_Some_iff)
  have "top' \<in> set (timerQueue s)"
    using assms by (rule peek_in_set)
  then have "queued ?s' \<subseteq> queued s"
    using set_pop_subset [of "objs s" "timerQueue s"] by (auto simp: queued_def)
  moreover have "slotWeight ?s' = slotWeight s"
    by (rule ext) (simp add: slotWeight_def)
  ultimately have "sum (slotWeight ?s') (queued ?s') \<le> sum (slotWeight s) (queued s)"
    by (intro sum_slots_mono) simp_all
  then show ?thesis
    using length_pop [OF ne, of "objs s"] by (simp add: pending_def)
qed

lemma pending_advanceTimers: "pending (advanceTimers currentTime s) \<le> pending s"
proof (rule advanceTimers_invariant [where P = "\<lambda>s'. pending s' \<le> pending s"])
  show "pending s \<le> pending s" by simp
next
  fix s' top'
  assume "pending s' \<le> pending s" "peek (timerQueue s') = Some top'"
  then show "pending (s'\<lparr> timerQueue := snd (pop (objs s') (timerQueue s')) \<rparr>) \<le> pending s"
    using pending_pop_timer [of s' top'] by simp
next
  fix s' top'
  assume "pending s' \<le> pending s" "peek (timerQueue s') = Some top'"
  then show "pending (s'\<lparr> timerQueue := snd (pop (objs s') (timerQueue s')),
                   objs := (objs s')(top' := (objs s' top')\<lparr> sortIndex := expirationTime (objs s' top') \<rparr>),
                   taskQueue := push ((objs s')(top' := (objs s' top')\<lparr> sortIndex := expirationTime (objs s' top') \<rparr>))
                                  (taskQueue s') top' \<rparr>) \<le> pending s"
    using pending_promote [of s' top'] by (meson order_trans)
qed

lemma slotWeight_scheduleCallback:
  "slotWeight (fst (scheduleCallback timeoutOf p cb delay s)) r =
     (if r = taskIdCounter s then cbWeight cb else slotWeight s r)"
  by (simp add: slotWeight_def scheduleCallback_objs)

lemma queued_scheduleCallback:
  "queued (fst (scheduleCallback timeoutOf p cb delay s)) = insert (taskIdCounter s) (queued s)"
  by (cases "startTimeOf delay s > clock s")
     (simp_all add: queued_def scheduleCallback_delayed scheduleCallback_ready)

lemma lengths_scheduleCallback:
  "length (taskQueue (fst (scheduleCallback timeoutOf p cb delay s))) +
   length (timerQueue (fst (scheduleCallback timeoutOf p cb delay s))) =
     Suc (length (taskQueue s) + length (timerQueue s))"
  by (cases "startTimeOf delay s > clock s")
     (simp_all add: scheduleCallback_delayed scheduleCallback_ready)

lemma pending_scheduleCallback:
  "pending (fst (scheduleCallback timeoutOf p cb delay s)) \<le> pending s + Suc (cbWeight cb)"
proof -
  let ?s' = "fst (scheduleCallback timeoutOf p cb delay s)"
  have "sum (slotWeight ?s') (insert (taskIdCounter s) (queued s))
          \<le> slotWeight ?s' (taskIdCounter s) + sum (slotWeight s) (queued s)"
    by (rule sum_slots_insert) (simp_all add: slotWeight_scheduleCallback)
  then have "sum (slotWeight ?s') (queued ?s') \<le> cbWeight cb + sum (slotWeight s) (queued s)"
    by (simp add: queued_scheduleCallback slotWeight_scheduleCallback)
  then show ?thesis
    using lengths_scheduleCallback [of timeoutOf p cb delay s] by (simp add: pending_def)
qed

lemma pending_cancelCallback: "pending (cancelCallback task s) \<le> pending s"
proof -
  have "sum (slotWeight (cancelCallback task s)) (queued (cancelCallback task s))
          \<le> sum (slotWeight s) (queued s)"
    by (rule sum_slots_mono) (simp_all add: queued_def cancelCallback_def slotWeight_def)
  then show ?thesis
    by (simp add: pending_def cancelCallback_def)
qed

lemma pending_runEffect: "pending (runEffect timeoutOf e s) \<le> pending s + effWeight e"
proof (cases e)
  case (Elapse d)
  then show ?thesis
    by (simp add: pending_def queued_def slotWeight_def)
next
  case (Schedule p cb delay)
  then show ?thesis
    using pending_scheduleCallback [of timeoutOf p cb delay s] by simp
next
  case (Cancel task)
  then show ?thesis
    using pending_cancelCallback [of task s] by simp
qed

lemma pending_fold_runEffect:
  "pending (fold (runEffect timeoutOf) es s) \<le> pending s + sum_list (map effWeight es)"
proof (induction es arbitrary: s)
  case Nil
  show ?case by simp
next
  case (Cons e es)
  have "pending (fold (runEffect timeoutOf) es (runEffect timeoutOf e s))
          \<le> pending (runEffect timeoutOf e s) + sum_list (map effWeight es)"
    by (rule Cons.IH)
  also have "\<dots> \<le> pending s + effWeight e + sum_list (map effWeight es)"
    using pending_runEffect [of timeoutOf e s] by simp
  finally show ?case by simp
qed

lemma pending_call:
  "pending (fst (call timeoutOf cb s)) < pending s + cbWeight cb"
proof (cases cb)
  case (Callback es out)
  then show ?thesis
    using pending_fold_runEffect [of timeoutOf es s] by (simp add: call_def)
qed

lemma pending_take_callback:
  assumes "task \<in> queued s" and "callback (objs s task) = Some cb"
  shows "pending (s\<lparr> objs := (objs s)(task := (objs s task)\<lparr> callback := None \<rparr>),
                     invoked := l \<rparr>) + cbWeight cb = pending s"
proof -
  let ?s' = "s\<lparr> objs := (objs s)(task := (objs s task)\<lparr> callback := None \<rparr>), invoked := l \<rparr>"
  have q: "queued ?s' = queued s"
    by (simp add: queued_def)
  have "sum (slotWeight s) (queued s) = slotWeight s task + sum (slotWeight s) (queued s - {task})"
    using assms(1) by (simp add: sum.remove)
  moreover have "sum (slotWeight ?s') (queued s) = slotWeight ?s' task + sum (slotWeight ?s') (queued s - {task})"
    using assms(1) by (simp add: sum.remove)
  moreover have "sum (slotWeight ?s') (queued s - {task}) = sum (slotWeight s) (queued s - {task})"
    by (rule sum.cong) (simp_all add: slotWeight_def)
  moreover have "slotWeight ?s' task = 0" "slotWeight s task = cbWeight cb"
    using assms(2) by (simp_all add: slotWeight_def)
  ultimately show ?thesis
    by (simp add: pending_def q)
qed

lemma workLoop_body_decreases:
  assumes "peek (taskQueue s) = Some currentTask"
    and "workLoop_body timeoutOf currentTask currentTime s = Continue currentTime' s'"
  shows "pending s' < pending s"
proof (cases "callback (objs s currentTask)")
  case None
  then have "s' = s\<lparr> taskQueue := snd (pop (objs s) (taskQueue s)) \<rparr>"
    using assms(2) by (simp add: workLoop_body_def split: if_splits)
  then show ?thesis
    using pending_pop_task [OF assms(1)] by simp
next
  case (Some cb)
  define s1 where "s1 = s\<lparr> objs := (objs s)(currentTask := (objs s currentTask)\<lparr> callback := None \<rparr>),
                           invoked := invoked s @ [currentTask] \<rparr>"
  define s2 where "s2 = fst (call timeoutOf cb s1)"
  define s3 where "s3 = (if peek (taskQueue s2) = Some currentTask
                         then s2\<lparr> taskQueue := snd (pop (objs s2) (taskQueue s2)) \<rparr> else s2)"
  have s': "s' = advanceTimers (getCurrentTime s2) s3"
    using assms(2) Some
    by (auto simp: workLoop_body_def Let_def s1_def s2_def s3_def
             split: if_splits prod.splits outcome.splits)
  have "currentTask \<in> queued s"
    using peek_in_set [OF assms(1)] by (simp add: queued_def)
  then have "pending s1 + cbWeight cb = pending s"
    unfolding s1_def using Some by (rule pending_take_callback)
  moreover have "pending s2 < pending s1 + cbWeight cb"
    unfolding s2_def by (rule pending_call)
  moreover have "pending s3 \<le> pending s2"
    using pending_pop_task [of s2 currentTask] by (auto simp: s3_def intro: less_imp_le)
  moreover have "pending s' \<le> pending s3"
    unfolding s' by (rule pending_advanceTimers)
  ultimately show ?thesis
    by simp
qed

termination workLoop_while
proof (relation "measure (\<lambda>(timeoutOf, currentTime, s). pending s)")
  show "wf (measure (\<lambda>(timeoutOf, currentTime, s). pending s))"
    by simp
next
  fix timeoutOf :: "PriorityLevel \<Rightarrow> int" and currentTime currentTime' :: int
    and s s' :: Scheduler and currentTask :: nat
  assume "peek (taskQueue s) = Some currentTask"
    and "workLoop_body timeoutOf currentTask currentTime s = Continue currentTime' s'"
  then have "pending s' < pending s"
    by (rule workLoop_body_decreases)
  then show "((timeoutOf, currentTime', s'), timeoutOf, currentTime, s)
               \<in> measure (\<lambda>(timeoutOf, currentTime, s). pending s)"
    by simp
qed

declare workLoop_while.simps [simp del]

subsection \<open>The passes of the loop body\<close>

lemma workLoop_body_Continue:
  assumes "workLoop_body timeoutOf currentTask currentTime s = Continue currentTime' s'"
  obtains (tombstone) "callback (objs s currentTask) = None" "currentTime' = currentTime"
      "s' = s\<lparr> taskQueue := snd (pop (objs s) (taskQueue s)) \<rparr>"
  | (finished) cb where "callback (objs s currentTask) = Some cb" "ending cb = ReturnsOther"
      "currentTime' = clock (called timeoutOf currentTask cb s)"
      "s' = advanceTimers (clock (called timeoutOf currentTask cb s))
              (if peek (taskQueue (called timeoutOf currentTask cb s)) = Some currentTask
               then (called timeoutOf currentTask cb s)
                      \<lparr> taskQueue := snd (pop (objs (called timeoutOf currentTask cb s))
                                              (taskQueue (called timeoutOf currentTask cb s))) \<rparr>
               else called timeoutOf currentTask cb s)"
  using assms
  by (auto simp: workLoop_body_def Let_def call_def called_def getCurrentTime_def
           split: if_splits option.splits outcome.splits)

lemma workLoop_body_Return:
  assumes "workLoop_body timeoutOf currentTask currentTime s = Return (s', r)"
  obtains (threw) cb where "callback (objs s currentTask) = Some cb" "ending cb = Throws"
      "r = Inl CallbackError" "s' = called timeoutOf currentTask cb s"
  | (continuation) cb k where "callback (objs s currentTask) = Some cb"
      "ending cb = ReturnsFunction k" "r = Inr True"
      "s' = advanceTimers (clock (called timeoutOf currentTask cb s))
              ((called timeoutOf currentTask cb s)
                 \<lparr> objs := (objs (called timeoutOf currentTask cb s))(currentTask :=
                      (objs (called timeoutOf currentTask cb s) currentTask)\<lparr> callback := Some k \<rparr>) \<rparr>)"
  using assms
  by (auto simp: workLoop_body_def Let_def call_def called_def getCurrentTime_def
           split: if_splits option.splits outcome.splits)

lemma workLoop_while_rule:
  assumes "P s"
    and "\<And>s currentTask currentTime currentTime' s'.
           \<lbrakk>P s; peek (taskQueue s) = Some currentTask;
            workLoop_body timeoutOf currentTask currentTime s = Continue currentTime' s'\<rbrakk> \<Longrightarrow> P s'"
    and "\<And>s currentTask currentTime s' r.
           \<lbrakk>P s; peek (taskQueue s) = Some currentTask;
            workLoop_body timeoutOf currentTask currentTime s = Return (s', r)\<rbrakk> \<Longrightarrow> Q s'"
    and "\<And>s currentTask currentTime. P s \<Longrightarrow> Q (fst (workLoop_after currentTask currentTime s))"
  shows "Q (fst (workLoop_while timeoutOf currentTime s))"
  using assms
proof (induction timeoutOf currentTime s rule: workLoop_while.induct)
  case (1 timeoutOf currentTime s)
  note start = "1.prems"(1) and cont = "1.prems"(2) and ret = "1.prems"(3) and after = "1.prems"(4)
  show ?case
  proof (cases "peek (taskQueue s)")
    case None
    then have "workLoop_while timeoutOf currentTime s = workLoop_after None currentTime s"
      using workLoop_while.simps [of timeoutOf currentTime s] by simp
    then show ?thesis
      using after [OF start] by simp
  next
    case (Some currentTask)
    show ?thesis
    proof (cases "workLoop_body timeoutOf currentTask currentTime s")
      case Break
      then have "workLoop_while timeoutOf currentTime s = workLoop_after (Some currentTask) currentTime s"
        using workLoop_while.simps [of timeoutOf currentTime s] Some by simp
      then show ?thesis
        using after [OF start] by simp
    next
      case (Return res)
      then have "workLoop_while timeoutOf currentTime s = res"
        using workLoop_while.simps [of timeoutOf currentTime s] Some by simp
      moreover have "Q (fst res)"
        using ret [OF start Some, of currentTime "fst res" "snd res"] Return by simp
      ultimately show ?thesis
        by simp
    next
      case (Continue currentTime' s')
      then have "workLoop_while timeoutOf currentTime s = workLoop_while timeoutOf currentTime' s'"
        using workLoop_while.simps [of timeoutOf currentTime s] Some by simp
      moreover have "P s'"
        using cont [OF start Some Continue] .
      then have "Q (fst (workLoop_while timeoutOf currentTime' s'))"
        by (rule "1.IH" [OF Some Continue _ cont ret after])
      ultimately show ?thesis
        by simp
    qed
  qed
qed

subsection \<open>What a kept property survives\<close>

lemma upheld_parts:
  assumes "upheld timeoutOf P"
  shows "\<forall>s s'. P s \<longrightarrow> sameCore s s' \<longrightarrow> P s'"
    and "\<forall>s p cb delay. P s \<longrightarrow> P (fst (scheduleCallback timeoutOf p cb delay s))"
    and "\<forall>s task. P s \<longrightarrow> P (cancelCallback task s)"
    and "\<forall>s d. P s \<longrightarrow> P (s\<lparr> clock := clock s + int d \<rparr>)"
    and "\<forall>s. P s \<longrightarrow> P (s\<lparr> taskQueue := snd (pop (objs s) (taskQueue s)) \<rparr>)"
    and "\<forall>s currentTime. P s \<longrightarrow> currentTime \<le> clock s \<longrightarrow> P (advanceTimers currentTime s)"
    and "\<forall>s task cb. P s \<longrightarrow> callback (objs s task) = Some cb \<longrightarrow>
        P (s\<lparr> objs := (objs s)(task := (objs s task)\<lparr> callback := None \<rparr>),
             invoked := invoked s @ [task] \<rparr>)"
    and "\<forall>s task cb s' k. P s \<longrightarrow> callback (objs s task) = Some cb \<longrightarrow> P s' \<longrightarrow>
        P (s'\<lparr> objs := (objs s')(task := (objs s' task)\<lparr> callback := Some k \<rparr>) \<rparr>)"
proof -
  note a = assms [unfolded upheld_def]
  show "\<forall>s s'. P s \<longrightarrow> sameCore s s' \<longrightarrow> P s'"
    by (rule a [THEN conjunct1])
  show "\<forall>s p cb delay. P s \<longrightarrow> P (fst (scheduleCallback timeoutOf p cb delay s))"
    by (rule a [THEN conjunct2, THEN conjunct1])
  show "\<forall>s task. P s \<longrightarrow> P (cancelCallback task s)"
    by (rule a [THEN conjunct2, THEN conjunct2, THEN conjunct1])
  show "\<forall>s d. P s \<longrightarrow> P (s\<lparr> clock := clock s + int d \<rparr>)"
    by (rule a [THEN conjunct2, THEN conjunct2, THEN conjunct2, THEN conjunct1])
  show "\<forall>s. P s \<longrightarrow> P (s\<lparr> taskQueue := snd (pop (objs s) (taskQueue s)) \<rparr>)"
    by (rule a [THEN conjunct2, THEN conjunct2, THEN conjunct2, THEN conjunct2, THEN conjunct1])
  show "\<forall>s currentTime. P s \<longrightarrow> currentTime \<le> clock s \<longrightarrow> P (advanceTimers currentTime s)"
    by (rule a [THEN conjunct2, THEN conjunct2, THEN conjunct2, THEN conjunct2, THEN conjunct2, THEN conjunct1])
  show "\<forall>s task cb. P s \<longrightarrow> callback (objs s task) = Some cb \<longrightarrow>
        P (s\<lparr> objs := (objs s)(task := (objs s task)\<lparr> callback := None \<rparr>),
             invoked := invoked s @ [task] \<rparr>)"
    by (rule a [THEN conjunct2, THEN conjunct2, THEN conjunct2, THEN conjunct2, THEN conjunct2, THEN conjunct2, THEN conjunct1])
  show "\<forall>s task cb s' k. P s \<longrightarrow> callback (objs s task) = Some cb \<longrightarrow> P s' \<longrightarrow>
        P (s'\<lparr> objs := (objs s')(task := (objs s' task)\<lparr> callback := Some k \<rparr>) \<rparr>)"
    by (rule a [THEN conjunct2, THEN conjunct2, THEN conjunct2, THEN conjunct2, THEN conjunct2, THEN conjunct2, THEN conjunct2])
qed

lemma upheld_sameCore:
  assumes "upheld timeoutOf P" and "P s" and "sameCore s s'"
  shows "P s'"
  using upheld_parts(1) [OF assms(1), rule_format, OF assms(2,3)] .

lemma upheld_scheduleCallback:
  assumes "upheld timeoutOf P" and "P s"
  shows "P (fst (scheduleCallback timeoutOf p cb delay s))"
  using upheld_parts(2) [OF assms(1), rule_format, OF assms(2)] .

lemma upheld_cancelCallback:
  assumes "upheld timeoutOf P" and "P s"
  shows "P (cancelCallback task s)"
  using upheld_parts(3) [OF assms(1), rule_format, OF assms(2)] .

lemma upheld_elapse:
  assumes "upheld timeoutOf P" and "P s"
  shows "P (s\<lparr> clock := clock s + int d \<rparr>)"
  using upheld_parts(4) [OF assms(1), rule_format, OF assms(2)] .

lemma upheld_pop_task:
  assumes "upheld timeoutOf P" and "P s"
  shows "P (s\<lparr> taskQueue := snd (pop (objs s) (taskQueue s)) \<rparr>)"
  using upheld_parts(5) [OF assms(1), rule_format, OF assms(2)] .

lemma upheld_advanceTimers:
  assumes "upheld timeoutOf P" and "P s" and "currentTime \<le> clock s"
  shows "P (advanceTimers currentTime s)"
  using upheld_parts(6) [OF assms(1), rule_format, OF assms(2,3)] .

lemma upheld_take:
  assumes "upheld timeoutOf P" and "P s" and "callback (objs s task) = Some cb"
  shows "P (s\<lparr> objs := (objs s)(task := (objs s task)\<lparr> callback := None \<rparr>),
             invoked := invoked s @ [task] \<rparr>)"
  using upheld_parts(7) [OF assms(1), rule_format, OF assms(2,3)] .

lemma upheld_reinstall:
  assumes "upheld timeoutOf P" and "P s" and "callback (objs s task) = Some cb" and "P s'"
  shows "P (s'\<lparr> objs := (objs s')(task := (objs s' task)\<lparr> callback := Some k \<rparr>) \<rparr>)"
  using upheld_parts(8) [OF assms(1), rule_format, OF assms(2,3,4)] .

lemma upheld_runEffect:
  assumes "upheld timeoutOf P" and "P s"
  shows "P (runEffect timeoutOf e s)"
proof (cases e)
  case (Elapse d)
  then show ?thesis
    using upheld_elapse [OF assms] by simp
next
  case (Schedule p cb delay)
  then show ?thesis
    using upheld_scheduleCallback [OF assms] by simp
next
  case (Cancel task)
  then show ?thesis
    using upheld_cancelCallback [OF assms] by simp
qed

lemma upheld_fold_runEffect:
  assumes "upheld timeoutOf P" and "P s"
  shows "P (fold (runEffect timeoutOf) es s)"
  using assms(2)
proof (induction es arbitrary: s)
  case Nil
  then show ?case by simp
next
  case (Cons e es)
  then show ?case
    using upheld_runEffect [OF assms(1)] by simp
qed

lemma upheld_called:
  assumes "upheld timeoutOf P" and "P s" and "callback (objs s currentTask) = Some cb"
  shows "P (called timeoutOf currentTask cb s)"
proof -
  have "P (s\<lparr> objs := (objs s)(currentTask := (objs s currentTask)\<lparr> callback := None \<rparr>),
             invoked := invoked s @ [currentTask] \<rparr>)"
    using assms by (rule upheld_take)
  then show ?thesis
    unfolding called_def by (rule upheld_fold_runEffect [OF assms(1)])
qed

lemma upheld_advanceTimers_now:
  assumes "upheld timeoutOf P" and "P s"
  shows "P (advanceTimers (clock s) s)"
  using assms by (rule upheld_advanceTimers) simp

lemma upheld_Continue:
  assumes "upheld timeoutOf P" and "P s"
    and "workLoop_body timeoutOf currentTask currentTime s = Continue currentTime' s'"
  shows "P s'"
  using assms(3)
proof (cases rule: workLoop_body_Continue)
  case tombstone
  then show ?thesis
    using upheld_pop_task [OF assms(1,2)] by simp
next
  case (finished cb)
  let ?s2 = "called timeoutOf currentTask cb s"
  have s2: "P ?s2"
    using assms(1,2) finished(1) by (rule upheld_called)
  show ?thesis
  proof (cases "peek (taskQueue ?s2) = Some currentTask")
    case True
    have "clock (?s2\<lparr> taskQueue := snd (pop (objs ?s2) (taskQueue ?s2)) \<rparr>) = clock ?s2"
      by simp
    then show ?thesis
      using upheld_advanceTimers_now [OF assms(1) upheld_pop_task [OF assms(1) s2]] finished(4) True
      by simp
  next
    case False
    then show ?thesis
      using upheld_advanceTimers_now [OF assms(1) s2] finished(4) by simp
  qed
qed

lemma upheld_Return:
  assumes "upheld timeoutOf P" and "P s"
    and "workLoop_body timeoutOf currentTask currentTime s = Return (s', r)"
  shows "P s'"
  using assms(3)
proof (cases rule: workLoop_body_Return)
  case (threw cb)
  then show ?thesis
    using upheld_called [OF assms(1,2)] by simp
next
  case (continuation cb k)
  let ?s2 = "called timeoutOf currentTask cb s"
  let ?s3 = "?s2\<lparr> objs := (objs ?s2)(currentTask := (objs ?s2 currentTask)\<lparr> callback := Some k \<rparr>) \<rparr>"
  have s2: "P ?s2"
    using assms(1,2) continuation(1) by (rule upheld_called)
  have "P ?s3"
    using assms(1,2) continuation(1) s2 by (rule upheld_reinstall)
  then have "P (advanceTimers (clock ?s3) ?s3)"
    by (rule upheld_advanceTimers_now [OF assms(1)])
  then show ?thesis
    using continuation(4) by simp
qed

lemma sameCore_requestHostTimeout [simp]: "sameCore s (requestHostTimeout h t s)"
  by (simp add: sameCore_def)

lemma upheld_workLoop_after:
  assumes "upheld timeoutOf P" and "P s"
  shows "P (fst (workLoop_after currentTask currentTime s))"
proof (rule upheld_sameCore [OF assms])
  show "sameCore s (fst (workLoop_after currentTask currentTime s))"
    by (simp add: workLoop_after_def sameCore_def split: option.splits)
qed

lemma upheld_workLoop_while:
  assumes "upheld timeoutOf P" and "P s"
  shows "P (fst (workLoop_while timeoutOf currentTime s))"
  using assms(2)
proof (rule workLoop_while_rule [where P = P])
  show "P s'" if "P s" "workLoop_body timeoutOf currentTask currentTime s = Continue currentTime' s'"
    for s currentTask currentTime currentTime' s'
    using assms(1) that by (rule upheld_Continue)
  show "P s'" if "P s" "workLoop_body timeoutOf currentTask currentTime s = Return (s', r)"
    for s currentTask currentTime s' r
    using assms(1) that by (rule upheld_Return)
  show "P (fst (workLoop_after currentTask currentTime s))" if "P s" for s currentTask currentTime
    using assms(1) that by (rule upheld_workLoop_after)
qed

lemma upheld_workLoop:
  assumes "upheld timeoutOf P" and "P s" and "initialTime \<le> clock s"
  shows "P (fst (workLoop timeoutOf hasTimeRemaining initialTime s))"
proof -
  have "P (advanceTimers initialTime s)"
    using assms by (rule upheld_advanceTimers)
  then show ?thesis
    unfolding workLoop_def Let_def by (rule upheld_workLoop_while [OF assms(1)])
qed

lemma upheld_flushWork:
  assumes "upheld timeoutOf P" and "P s" and "initialTime \<le> clock s"
  shows "P (fst (flushWork timeoutOf hasTimeRemaining initialTime s))"
proof -
  define entry where "entry = (if isHostTimeoutScheduled s
                 then cancelHostTimeout (s\<lparr> isHostCallbackScheduled := False,
                                            isHostTimeoutScheduled := False \<rparr>)
                 else s\<lparr> isHostCallbackScheduled := False \<rparr>)\<lparr> isPerformingWork := True \<rparr>"
  have core: "sameCore s entry"
    by (simp add: entry_def sameCore_def)
  then have "P entry"
    by (rule upheld_sameCore [OF assms(1,2)])
  moreover have "initialTime \<le> clock entry"
    using core assms(3) by (simp add: sameCore_def)
  ultimately have "P (fst (workLoop timeoutOf hasTimeRemaining initialTime entry))"
    by (rule upheld_workLoop [OF assms(1)])
  moreover have "sameCore (fst (workLoop timeoutOf hasTimeRemaining initialTime entry))
                   (fst (flushWork timeoutOf hasTimeRemaining initialTime s))"
    by (simp add: flushWork_def Let_def entry_def sameCore_def split: prod.splits)
  ultimately show ?thesis
    by (rule upheld_sameCore [OF assms(1)])
qed

lemma upheld_performWorkUntilDealine:
  assumes "upheld timeoutOf P" and "P s"
  shows "P (fst (performWorkUntilDealine timeoutOf s))"
proof (cases "scheduledHostCallback s")
  case None
  have "sameCore s (fst (performWorkUntilDealine timeoutOf s))"
    using None by (simp add: performWorkUntilDealine_def sameCore_def)
  then show ?thesis
    by (rule upheld_sameCore [OF assms])
next
  case (Some h)
  define s1 where "s1 = s\<lparr> startTime_slice := Some (clock s) \<rparr>"
  have "sameCore s s1"
    by (simp add: s1_def sameCore_def)
  then have "P s1"
    by (rule upheld_sameCore [OF assms])
  moreover have "clock s \<le> clock s1"
    by (simp add: s1_def)
  ultimately have "P (fst (flushWork timeoutOf True (clock s) s1))"
    by (rule upheld_flushWork [OF assms(1)])
  moreover have "sameCore (fst (flushWork timeoutOf True (clock s) s1))
                   (fst (performWorkUntilDealine timeoutOf s))"
    using Some
    by (cases h)
       (simp add: performWorkUntilDealine_def Let_def s1_def sameCore_def getCurrentTime_def
          schedulePerformWorkUntilDeadline_def split: prod.splits)
  ultimately show ?thesis
    by (rule upheld_sameCore [OF assms(1)])
qed

lemma upheld_handleTimeout:
  assumes "upheld timeoutOf P" and "P s" and "currentTime \<le> clock s"
  shows "P (handleTimeout currentTime s)"
proof -
  define s1 where "s1 = s\<lparr> isHostTimeoutScheduled := False \<rparr>"
  have "sameCore s s1"
    by (simp add: s1_def sameCore_def)
  then have "P s1"
    by (rule upheld_sameCore [OF assms(1,2)])
  moreover have "currentTime \<le> clock s1"
    using assms(3) by (simp add: s1_def)
  ultimately have "P (advanceTimers currentTime s1)"
    by (rule upheld_advanceTimers [OF assms(1)])
  moreover have "sameCore (advanceTimers currentTime s1) (handleTimeout currentTime s)"
    by (simp add: handleTimeout_def Let_def s1_def sameCore_def split: option.splits)
  ultimately show ?thesis
    by (rule upheld_sameCore [OF assms(1)])
qed

lemma upheld_step:
  assumes "upheld timeoutOf P" and "P s"
  shows "P (step timeoutOf e s)"
proof (cases e)
  case (Tick d)
  then show ?thesis
    using upheld_elapse [OF assms] by simp
next
  case (CallSchedule p cb delay)
  then show ?thesis
    using upheld_scheduleCallback [OF assms] by simp
next
  case (CallCancel task)
  then show ?thesis
    using upheld_cancelCallback [OF assms] by simp
next
  case Message
  then show ?thesis
    using upheld_performWorkUntilDealine [OF assms] by simp
next
  case Timeout
  then show ?thesis
    using upheld_handleTimeout [OF assms, of "clock s"] by (simp add: getCurrentTime_def)
qed

lemma upheld_run:
  assumes "upheld timeoutOf P" and "P s"
  shows "P (run timeoutOf evs s)"
  unfolding run_def using assms(2)
proof (induction evs arbitrary: s)
  case Nil
  then show ?case by simp
next
  case (Cons e evs)
  then show ?case
    using upheld_step [OF assms(1)] by simp
qed

subsection \<open>What advanceTimers leaves alone\<close>

lemma advanceTimers_frame:
  "clock (advanceTimers currentTime s) = clock s \<and>
   invoked (advanceTimers currentTime s) = invoked s \<and>
   taskIdCounter (advanceTimers currentTime s) = taskIdCounter s \<and>
   (\<forall>r. callback (objs (advanceTimers currentTime s) r) = callback (objs s r) \<and>
        startTime (objs (advanceTimers currentTime s) r) = startTime (objs s r) \<and>
        expirationTime (objs (advanceTimers currentTime s) r) = expirationTime (objs s r)) \<and>
   set (taskQueue s) \<subseteq> set (taskQueue (advanceTimers currentTime s))"
  by (rule advanceTimers_invariant) auto

lemma advanceTimers_clock [simp]: "clock (advanceTimers currentTime s) = clock s"
  using advanceTimers_frame [of currentTime s] by simp

lemma advanceTimers_invoked [simp]: "invoked (advanceTimers currentTime s) = invoked s"
  using advanceTimers_frame [of currentTime s] by simp

lemma advanceTimers_counter [simp]: "taskIdCounter (advanceTimers currentTime s) = taskIdCounter s"
  using advanceTimers_frame [of currentTime s] by simp

lemma advanceTimers_callback [simp]:
  "callback (objs (advanceTimers currentTime s) r) = callback (objs s r)"
  using advanceTimers_frame [of currentTime s] by simp

lemma advanceTimers_startTime [simp]:
  "startTime (objs (advanceTimers currentTime s) r) = startTime (objs s r)"
  using advanceTimers_frame [of currentTime s] by simp

lemma advanceTimers_expirationTime [simp]:
  "expirationTime (objs (advanceTimers currentTime s) r) = expirationTime (objs s r)"
  using advanceTimers_frame [of currentTime s] by simp

lemma advanceTimers_keeps_ready:
  "r \<in> set (taskQueue s) \<Longrightarrow> r \<in> set (taskQueue (advanceTimers currentTime s))"
  using advanceTimers_frame [of currentTime s] by auto

subsection \<open>Ready tasks have started\<close>

lemma readyInv_scheduleCallback:
  assumes "readyInv s"
  shows "readyInv (fst (scheduleCallback timeoutOf p cb delay s))"
proof -
  have fresh: "taskIdCounter s \<notin> set (taskQueue s)"
    using assms by (auto simp: readyInv_def queued_def)
  show ?thesis
  proof (cases "startTimeOf delay s > clock s")
    case True
    show ?thesis
      using assms fresh
      by (auto simp: readyInv_def queued_scheduleCallback scheduleCallback_delayed(1) [OF True]
            scheduleCallback_objs)
  next
    case False
    show ?thesis
      using assms False fresh
      by (auto simp: readyInv_def queued_scheduleCallback scheduleCallback_ready(2) [OF False]
            scheduleCallback_objs)
  qed
qed

lemma readyInv_advanceTimers:
  assumes "readyInv s" and "currentTime \<le> clock s"
  shows "readyInv (advanceTimers currentTime s)"
proof -
  have "readyInv (advanceTimers currentTime s) \<and> currentTime \<le> clock (advanceTimers currentTime s)"
  proof (rule advanceTimers_invariant
      [where P = "\<lambda>s. readyInv s \<and> currentTime \<le> clock s" and currentTime = currentTime])
    show "readyInv s \<and> currentTime \<le> clock s"
      using assms by simp
  next
    fix s top'
    assume "readyInv s \<and> currentTime \<le> clock s"
    then show "readyInv (s\<lparr> timerQueue := snd (pop (objs s) (timerQueue s)) \<rparr>) \<and>
               currentTime \<le> clock (s\<lparr> timerQueue := snd (pop (objs s) (timerQueue s)) \<rparr>)"
      using set_pop_subset [of "objs s" "timerQueue s"]
      by (auto simp: readyInv_def queued_def)
  next
    fix s top'
    assume inv: "readyInv s \<and> currentTime \<le> clock s"
      and root: "peek (timerQueue s) = Some top'"
      and due: "startTime (objs s top') \<le> currentTime"
    let ?m = "(objs s)(top' := (objs s top')\<lparr> sortIndex := expirationTime (objs s top') \<rparr>)"
    let ?s' = "s\<lparr> timerQueue := snd (pop (objs s) (timerQueue s)), objs := ?m,
                  taskQueue := push ?m (taskQueue s) top' \<rparr>"
    have "top' \<in> set (timerQueue s)"
      using root by (rule peek_in_set)
    then show "readyInv ?s' \<and> currentTime \<le> clock ?s'"
      using inv due set_pop_subset [of "objs s" "timerQueue s"]
      by (auto simp: readyInv_def queued_def)
  qed
  then show ?thesis
    by simp
qed

lemma upheld_readyInv: "upheld timeoutOf readyInv"
  unfolding upheld_def
proof (intro conjI allI impI)
  fix s s'
  assume "readyInv s" "sameCore s s'"
  then show "readyInv s'"
    by (simp add: readyInv_def sameCore_def queued_def)
next
  fix s p cb delay
  assume "readyInv s"
  then show "readyInv (fst (scheduleCallback timeoutOf p cb delay s))"
    by (rule readyInv_scheduleCallback)
next
  fix s task
  assume "readyInv s"
  then show "readyInv (cancelCallback task s)"
    by (simp add: readyInv_def cancelCallback_def queued_def)
next
  fix s d
  assume "readyInv s"
  then show "readyInv (s\<lparr> clock := clock s + int d \<rparr>)"
    by (fastforce simp: readyInv_def queued_def)
next
  fix s
  assume "readyInv s"
  then show "readyInv (s\<lparr> taskQueue := snd (pop (objs s) (taskQueue s)) \<rparr>)"
    using set_pop_subset [of "objs s" "taskQueue s"]
    by (auto simp: readyInv_def queued_def)
next
  fix s currentTime
  assume "readyInv s" "currentTime \<le> clock s"
  then show "readyInv (advanceTimers currentTime s)"
    by (rule readyInv_advanceTimers)
next
  fix s task cb
  assume "readyInv s"
  then show "readyInv (s\<lparr> objs := (objs s)(task := (objs s task)\<lparr> callback := None \<rparr>),
                          invoked := invoked s @ [task] \<rparr>)"
    by (simp add: readyInv_def queued_def)
next
  fix s task cb s' k
  assume "readyInv s'"
  then show "readyInv (s'\<lparr> objs := (objs s')(task := (objs s' task)\<lparr> callback := Some k \<rparr>) \<rparr>)"
    by (simp add: readyInv_def queued_def)
qed

subsection \<open>A task object keeps its start time, and an empty slot stays empty\<close>

lemma upheld_tracked: "upheld timeoutOf (tracked task T dead n)"
  unfolding upheld_def
proof (intro conjI allI impI)
  fix s s'
  assume "tracked task T dead n s" "sameCore s s'"
  then show "tracked task T dead n s'"
    by (simp add: tracked_def sameCore_def)
next
  fix s p cb delay
  assume "tracked task T dead n s"
  then show "tracked task T dead n (fst (scheduleCallback timeoutOf p cb delay s))"
    by (simp add: tracked_def scheduleCallback_objs)
next
  fix s r
  assume "tracked task T dead n s"
  then show "tracked task T dead n (cancelCallback r s)"
    by (auto simp: tracked_def cancelCallback_def)
next
  fix s d
  assume "tracked task T dead n s"
  then show "tracked task T dead n (s\<lparr> clock := clock s + int d \<rparr>)"
    by (simp add: tracked_def)
next
  fix s
  assume "tracked task T dead n s"
  then show "tracked task T dead n (s\<lparr> taskQueue := snd (pop (objs s) (taskQueue s)) \<rparr>)"
    by (simp add: tracked_def)
next
  fix s currentTime
  assume "tracked task T dead n s"
  then show "tracked task T dead n (advanceTimers currentTime s)"
    by (simp add: tracked_def)
next
  fix s r cb
  assume "tracked task T dead n s" "callback (objs s r) = Some cb"
  then show "tracked task T dead n (s\<lparr> objs := (objs s)(r := (objs s r)\<lparr> callback := None \<rparr>),
                          invoked := invoked s @ [r] \<rparr>)"
    by (auto simp: tracked_def)
next
  fix s r cb s' k
  assume "tracked task T dead n s" "callback (objs s r) = Some cb" "tracked task T dead n s'"
  then show "tracked task T dead n
               (s'\<lparr> objs := (objs s')(r := (objs s' r)\<lparr> callback := Some k \<rparr>) \<rparr>)"
    by (auto simp: tracked_def)
qed

lemma readyInv_initial: "readyInv initialScheduler"
  by (simp add: readyInv_def queued_def initialScheduler_def)

lemma readyInv_reachable: "readyInv (run timeoutOf evs initialScheduler)"
  using upheld_readyInv readyInv_initial by (rule upheld_run)

lemma cancelCallback_empty_slot:
  "callback (objs s task) = None \<Longrightarrow> cancelCallback task s = s"
proof -
  assume "callback (objs s task) = None"
  then have "(objs s task)\<lparr> callback := None \<rparr> = objs s task"
    by simp
  then show ?thesis
    by (simp add: cancelCallback_def)
qed

lemma upheld_finish:
  assumes "upheld timeoutOf P" and "P s2"
  shows "P (advanceTimers (clock s2)
              (if peek (taskQueue s2) = Some currentTask
               then s2\<lparr> taskQueue := snd (pop (objs s2) (taskQueue s2)) \<rparr> else s2))"
proof (cases "peek (taskQueue s2) = Some currentTask")
  case True
  have "P (advanceTimers (clock (s2\<lparr> taskQueue := snd (pop (objs s2) (taskQueue s2)) \<rparr>))
            (s2\<lparr> taskQueue := snd (pop (objs s2) (taskQueue s2)) \<rparr>))"
    by (rule upheld_advanceTimers_now [OF assms(1) upheld_pop_task [OF assms]])
  then show ?thesis
    using True by simp
next
  case False
  then show ?thesis
    using upheld_advanceTimers_now [OF assms] by simp
qed

lemma executed_slot_empty:
  assumes "task < taskIdCounter s" and "callback (objs s task) = Some cb"
    and "workLoop_body timeoutOf task currentTime s = Continue currentTime' s'"
  shows "callback (objs s' task) = None"
  using assms(3)
proof (cases rule: workLoop_body_Continue)
  case tombstone
  then show ?thesis
    using assms(2) by simp
next
  case (finished cb')
  let ?taken = "s\<lparr> objs := (objs s)(task := (objs s task)\<lparr> callback := None \<rparr>),
                   invoked := invoked s @ [task] \<rparr>"
  let ?P = "tracked task (startTime (objs s task)) True (Suc (count_list (invoked s) task))"
  have "?P ?taken"
    using assms(1) by (simp add: tracked_def)
  then have "?P (called timeoutOf task cb' s)"
    unfolding called_def by (rule upheld_fold_runEffect [OF upheld_tracked])
  then have "?P s'"
    unfolding finished(4) by (rule upheld_finish [OF upheld_tracked])
  then show ?thesis
    by (simp add: tracked_def)
qed

subsection \<open>Invocations and the ready queue across a call\<close>

lemma invoked_runEffect [simp]: "invoked (runEffect timeoutOf e s) = invoked s"
  by (cases e) (simp_all add: cancelCallback_def)

lemma invoked_fold_runEffect [simp]: "invoked (fold (runEffect timeoutOf) es s) = invoked s"
  by (induction es arbitrary: s) simp_all

lemma invoked_called [simp]: "invoked (called timeoutOf currentTask cb s) = invoked s @ [currentTask]"
  by (simp add: called_def)

lemma taskQueue_runEffect: "set (taskQueue s) \<subseteq> set (taskQueue (runEffect timeoutOf e s))"
proof (cases e)
  case (Elapse d)
  then show ?thesis by simp
next
  case (Schedule p cb delay)
  then show ?thesis
    by (cases "startTimeOf delay s > clock s")
       (auto simp: scheduleCallback_delayed scheduleCallback_ready)
next
  case (Cancel task)
  then show ?thesis by (simp add: cancelCallback_def)
qed

lemma taskQueue_fold_runEffect:
  "set (taskQueue s) \<subseteq> set (taskQueue (fold (runEffect timeoutOf) es s))"
proof (induction es arbitrary: s)
  case Nil
  show ?case by simp
next
  case (Cons e es)
  have "set (taskQueue s) \<subseteq> set (taskQueue (runEffect timeoutOf e s))"
    by (rule taskQueue_runEffect)
  also have "\<dots> \<subseteq> set (taskQueue (fold (runEffect timeoutOf) es (runEffect timeoutOf e s)))"
    by (rule Cons.IH)
  finally show ?case by simp
qed

lemma taskQueue_called:
  "r \<in> set (taskQueue s) \<Longrightarrow> r \<in> set (taskQueue (called timeoutOf currentTask cb s))"
  using taskQueue_fold_runEffect
    [of "s\<lparr> objs := (objs s)(currentTask := (objs s currentTask)\<lparr> callback := None \<rparr>),
             invoked := invoked s @ [currentTask] \<rparr>" timeoutOf "effects cb"]
  by (auto simp: called_def)

lemma upheld_invoked_extends: "upheld timeoutOf (\<lambda>s. \<exists>rest. invoked s = l @ rest)"
  unfolding upheld_def
  by (intro conjI allI impI) (auto simp: sameCore_def cancelCallback_def)

lemma workLoop_while_empty:
  "peek (taskQueue s) = None \<Longrightarrow>
   workLoop_while timeoutOf currentTime s = workLoop_after None currentTime s"
  using workLoop_while.simps [of timeoutOf currentTime s] by simp

lemma workLoop_while_Break:
  "peek (taskQueue s) = Some currentTask \<Longrightarrow>
   workLoop_body timeoutOf currentTask currentTime s = Break \<Longrightarrow>
   workLoop_while timeoutOf currentTime s = workLoop_after (Some currentTask) currentTime s"
  using workLoop_while.simps [of timeoutOf currentTime s] by simp

lemma workLoop_while_Return:
  "peek (taskQueue s) = Some currentTask \<Longrightarrow>
   workLoop_body timeoutOf currentTask currentTime s = Return res \<Longrightarrow>
   workLoop_while timeoutOf currentTime s = res"
  using workLoop_while.simps [of timeoutOf currentTime s] by simp

lemma workLoop_while_Continue:
  "peek (taskQueue s) = Some currentTask \<Longrightarrow>
   workLoop_body timeoutOf currentTask currentTime s = Continue currentTime' s' \<Longrightarrow>
   workLoop_while timeoutOf currentTime s = workLoop_while timeoutOf currentTime' s'"
  using workLoop_while.simps [of timeoutOf currentTime s] by simp

lemma workLoop_body_Break:
  "workLoop_body timeoutOf currentTask currentTime s = Break \<longleftrightarrow>
     expirationTime (objs s currentTask) > currentTime \<and> shouldYieldToHost s"
  by (auto simp: workLoop_body_def Let_def split: option.splits prod.splits outcome.splits)

lemma overdue_root_is_called:
  assumes "peek (taskQueue s) = Some currentTask"
    and "expirationTime (objs s currentTask) \<le> currentTime"
    and "callback (objs s currentTask) = Some cb"
  shows "\<exists>rest. invoked (fst (workLoop_while timeoutOf currentTime s)) = invoked s @ currentTask # rest"
proof -
  let ?P = "\<lambda>s'. \<exists>rest. invoked s' = (invoked s @ [currentTask]) @ rest"
  have "?P (fst (workLoop_while timeoutOf currentTime s))"
  proof (cases "workLoop_body timeoutOf currentTask currentTime s")
    case Break
    then show ?thesis
      using assms(2) by (simp add: workLoop_body_Break)
  next
    case (Return res)
    then have body: "workLoop_body timeoutOf currentTask currentTime s = Return (fst res, snd res)"
      by simp
    have "invoked (fst res) = invoked s @ [currentTask]"
      using body by (cases rule: workLoop_body_Return) simp_all
    then show ?thesis
      using workLoop_while_Return [OF assms(1) Return] by simp
  next
    case (Continue currentTime' s')
    have "invoked s' = invoked s @ [currentTask]"
      using Continue assms(3) by (cases rule: workLoop_body_Continue) simp_all
    then have "?P s'"
      by simp
    then have "?P (fst (workLoop_while timeoutOf currentTime' s'))"
      by (rule upheld_workLoop_while [OF upheld_invoked_extends])
    then show ?thesis
      using workLoop_while_Continue [OF assms(1) Continue] by simp
  qed
  then show ?thesis
    by simp
qed

subsection \<open>The cases of advanceTimers\<close>

lemma advanceTimers_empty:
  "peek (timerQueue s) = None \<Longrightarrow> advanceTimers currentTime s = s"
  using advanceTimers.simps [of currentTime s] by simp

lemma advanceTimers_discard:
  "peek (timerQueue s) = Some top' \<Longrightarrow> callback (objs s top') = None \<Longrightarrow>
   advanceTimers currentTime s =
     advanceTimers currentTime (s\<lparr> timerQueue := snd (pop (objs s) (timerQueue s)) \<rparr>)"
  using advanceTimers.simps [of currentTime s] by simp

lemma advanceTimers_promote:
  "peek (timerQueue s) = Some top' \<Longrightarrow> callback (objs s top') \<noteq> None \<Longrightarrow>
   startTime (objs s top') \<le> currentTime \<Longrightarrow>
   advanceTimers currentTime s =
     advanceTimers currentTime
       (s\<lparr> timerQueue := snd (pop (objs s) (timerQueue s)),
          objs := (objs s)(top' := (objs s top')\<lparr> sortIndex := expirationTime (objs s top') \<rparr>),
          taskQueue := push ((objs s)(top' := (objs s top')\<lparr> sortIndex := expirationTime (objs s top') \<rparr>))
                         (taskQueue s) top' \<rparr>)"
  using advanceTimers.simps [of currentTime s] by (auto simp: Let_def)

lemma advanceTimers_stop:
  "peek (timerQueue s) = Some top' \<Longrightarrow> callback (objs s top') \<noteq> None \<Longrightarrow>
   \<not> startTime (objs s top') \<le> currentTime \<Longrightarrow> advanceTimers currentTime s = s"
  using advanceTimers.simps [of currentTime s] by auto

lemma advanceTimers_root:
  "peek (timerQueue (advanceTimers currentTime s)) = Some r \<Longrightarrow>
     callback (objs (advanceTimers currentTime s) r) \<noteq> None \<and>
     startTime (objs (advanceTimers currentTime s) r) > currentTime"
proof (induction currentTime s rule: advanceTimers.induct)
  case (1 currentTime s)
  show ?case
  proof (cases "peek (timerQueue s)")
    case None
    then show ?thesis
      using "1.prems" by (simp add: advanceTimers_empty)
  next
    case (Some top')
    show ?thesis
    proof (cases "callback (objs s top') = None")
      case True
      show ?thesis
        using "1.IH"(1) [OF Some True] "1.prems"
        unfolding advanceTimers_discard [OF Some True] by simp
    next
      case False
      show ?thesis
      proof (cases "startTime (objs s top') \<le> currentTime")
        case le: True
        show ?thesis
          using "1.IH"(2) [OF Some False le] "1.prems"
          unfolding advanceTimers_promote [OF Some False le] by (simp add: Let_def)
      next
        case gt: False
        show ?thesis
          using Some False gt "1.prems" by (simp add: advanceTimers_stop [OF Some False gt])
      qed
    qed
  qed
qed

subsection \<open>A cancellation made by a running callback\<close>

text \<open>
  A callback that cancels another task: the slot of that task is empty when the call
  ends, and stays empty through the rest of the pass and of the loop.
\<close>

lemma tracked_reinstall_other:
  assumes "tracked task T dead n s" and "currentTask \<noteq> task"
  shows "tracked task T dead n
           (s\<lparr> objs := (objs s)(currentTask := (objs s currentTask)\<lparr> callback := Some k \<rparr>) \<rparr>)"
  using assms by (simp add: tracked_def)

lemma cancel_in_call:
  assumes "task < taskIdCounter s" and "currentTask \<noteq> task"
    and "Cancel task \<in> set (effects cb)"
  shows "tracked task (startTime (objs s task)) True (count_list (invoked s) task)
           (called timeoutOf currentTask cb s)"
proof -
  let ?T = "startTime (objs s task)"
  let ?n = "count_list (invoked s) task"
  let ?taken = "s\<lparr> objs := (objs s)(currentTask := (objs s currentTask)\<lparr> callback := None \<rparr>),
                   invoked := invoked s @ [currentTask] \<rparr>"
  obtain pre post where split: "effects cb = pre @ Cancel task # post"
    using assms(3) by (auto dest: split_list)
  define s1 where "s1 = fold (runEffect timeoutOf) pre ?taken"
  have "tracked task ?T False 0 ?taken"
    using assms(1,2) by (simp add: tracked_def)
  then have alive: "tracked task ?T False 0 s1"
    unfolding s1_def by (rule upheld_fold_runEffect [OF upheld_tracked])
  have "invoked s1 = invoked s @ [currentTask]"
    by (simp add: s1_def)
  then have "count_list (invoked s1) task = ?n"
    using assms(2) by simp
  then have "tracked task ?T True ?n (cancelCallback task s1)"
    using alive by (simp add: tracked_def cancelCallback_def)
  then have "tracked task ?T True ?n (fold (runEffect timeoutOf) post (cancelCallback task s1))"
    by (rule upheld_fold_runEffect [OF upheld_tracked])
  then show ?thesis
    by (simp add: called_def split s1_def)
qed

lemma cancel_in_flush:
  assumes "task < taskIdCounter s" and "peek (taskQueue s) = Some currentTask"
    and "currentTask \<noteq> task"
    and "\<not> (expirationTime (objs s currentTask) > currentTime \<and> shouldYieldToHost s)"
    and "callback (objs s currentTask) = Some cb" and "Cancel task \<in> set (effects cb)"
  shows "tracked task (startTime (objs s task)) True (count_list (invoked s) task)
           (fst (workLoop_while timeoutOf currentTime s))"
proof -
  let ?P = "tracked task (startTime (objs s task)) True (count_list (invoked s) task)"
  let ?s2 = "called timeoutOf currentTask cb s"
  have s2: "?P ?s2"
    using assms(1,3,6) by (rule cancel_in_call)
  show ?thesis
  proof (cases "workLoop_body timeoutOf currentTask currentTime s")
    case Break
    then show ?thesis
      using assms(4) by (simp add: workLoop_body_Break)
  next
    case (Return res)
    then have body: "workLoop_body timeoutOf currentTask currentTime s = Return (fst res, snd res)"
      by simp
    have "?P (fst res)"
      using body
    proof (cases rule: workLoop_body_Return)
      case (threw cb')
      then show ?thesis
        using s2 assms(5) by simp
    next
      case (continuation cb' k)
      let ?s3 = "?s2\<lparr> objs := (objs ?s2)(currentTask :=
                    (objs ?s2 currentTask)\<lparr> callback := Some k \<rparr>) \<rparr>"
      have "?P ?s3"
        using s2 assms(3) by (rule tracked_reinstall_other)
      then have "?P (advanceTimers (clock ?s2) ?s3)"
        using upheld_advanceTimers_now [OF upheld_tracked, of _ _ _ _ ?s3] by simp
      then show ?thesis
        using continuation assms(5) by simp
    qed
    then show ?thesis
      using workLoop_while_Return [OF assms(2) Return] by simp
  next
    case (Continue currentTime' s')
    have "?P s'"
      using Continue
    proof (cases rule: workLoop_body_Continue)
      case tombstone
      then show ?thesis
        using assms(5) by simp
    next
      case (finished cb')
      then have "cb' = cb"
        using assms(5) by simp
      then show ?thesis
        unfolding finished(4) using s2 by (intro upheld_finish [OF upheld_tracked]) simp
    qed
    then have "?P (fst (workLoop_while timeoutOf currentTime' s'))"
      by (rule upheld_workLoop_while [OF upheld_tracked])
    then show ?thesis
      using workLoop_while_Continue [OF assms(2) Continue] by simp
  qed
qed

subsection \<open>Evaluation of concrete runs\<close>

text \<open>The definitions a concrete run unfolds.\<close>

lemmas evalDefs = run_def scheduleCallback_def initialScheduler_def getCurrentTime_def Let_def
  requestHostTimeout_def requestHostCallback_def cancelHostTimeout_def clearTimeout_def
  setTimeout_def push_def pop_def peek_def siftUp.simps siftDown.simps keyLess_def swap_def
  handleTimeout_def advanceTimers.simps performWorkUntilDealine_def flushWork_def
  workLoop_def workLoop_while.simps workLoop_body_def workLoop_after_def call_def
  shouldYieldToHost_def frameInterval_def schedulePerformWorkUntilDeadline_def
  cancelCallback_def noTask_def

section \<open>Submission\<close>

text \<open>
  C1. A call of \<open>scheduleCallback\<close> with a task that is ready now, made while no host
  callback is scheduled and no work is being performed, is claimed to ask the turn
  driver for the next host turn (\<open>schedulePerformWorkUntilDeadline\<close> is invoked, so that
  \<open>performWorkUntilDealine\<close> will fire). The code does not: \<open>requestHostCallback\<close> only
  stores \<open>flushWork\<close> in \<open>scheduledHostCallback\<close>. The first submission after the module
  was loaded, of a task without delay: the task is in the ready queue, the flag
  \<open>isHostCallbackScheduled\<close> is set and \<open>flushWork\<close> is stored, but no message has been
  posted on the channel and \<open>isMessageLoopRunning\<close> is still false.
\<close>

theorem scheduleCallback_requests_no_turn:
  "isHostCallbackScheduled initialScheduler = False \<and>
   isPerformingWork initialScheduler = False \<and>
   (let s = fst (scheduleCallback timeoutOf NormalPriority cb None initialScheduler) in
      taskQueue s = [0] \<and> scheduledHostCallback s = Some FlushWork \<and>
      isHostCallbackScheduled s = True \<and> isMessageLoopRunning s = False \<and>
      postedMessages s = 0)"
  by (simp add: scheduleCallback_def initialScheduler_def getCurrentTime_def Let_def
        requestHostCallback_def push_def siftUp.simps)

text \<open>
  C2. A call of \<open>scheduleCallback\<close> with a delayed task that becomes the root of the
  delayed queue while the ready queue is empty is claimed to leave exactly one host
  timeout armed, for \<open>startTime - currentTime\<close>, a previously armed one having been
  cancelled. The code leaves none: \<open>scheduleCallback\<close> sets \<open>isHostTimeoutScheduled\<close>
  (or finds it set) before it calls \<open>requestHostTimeout\<close>, whose guard
  \<open>isHostTimeoutScheduled === false\<close> then skips \<open>setTimeout\<close>. First conjunct: the first
  submission after the module was loaded, with a delay of 50. Second conjunct: a task
  with a delay of 100 is waiting and \<open>handleTimeout\<close> has armed the timeout for it
  (identifier 1); the submission of a task with a delay of 50, the new root, cancels
  that timeout and arms nothing in its place.
\<close>

theorem scheduleCallback_arms_no_timeout:
  "(let s = fst (scheduleCallback timeoutOf NormalPriority cb (Some 50) initialScheduler) in
      taskQueue s = [] \<and> timerQueue s = [0] \<and> startTime (objs s 0) = 50 \<and>
      isHostTimeoutScheduled s = True \<and> timeouts s = [] \<and> taskTimeoutId s = - 1) \<and>
   (let armed = handleTimeout 0
                  (fst (scheduleCallback timeoutOf NormalPriority cb (Some 100) initialScheduler));
        s = fst (scheduleCallback timeoutOf NormalPriority cb (Some 50) armed) in
      isHostTimeoutScheduled armed = True \<and> timeouts armed = [(1, HandleTimeoutFn, 100)] \<and>
      taskQueue s = [] \<and> timerQueue s = [1, 0] \<and> startTime (objs s 1) = 50 \<and>
      isHostTimeoutScheduled s = True \<and> timeouts s = [] \<and> taskTimeoutId s = - 1)"
  by (simp add: scheduleCallback_def initialScheduler_def getCurrentTime_def Let_def
        requestHostTimeout_def cancelHostTimeout_def clearTimeout_def setTimeout_def
        handleTimeout_def advanceTimers.simps push_def siftUp.simps peek_def keyLess_def
        swap_def)

text \<open>
  C4. Every call of \<open>scheduleCallback\<close> is claimed to return the new task. The function
  has no \<open>return\<close> statement: every call evaluates to \<open>undefined\<close>.
\<close>

theorem scheduleCallback_returns_undefined:
  "snd (scheduleCallback timeoutOf priority cb delay s) = None"
  by (simp add: scheduleCallback_def Let_def)

section \<open>Timer promotion\<close>

text \<open>
  C7. \<open>advanceTimers(currentTime)\<close> examines the root of the delayed queue again and
  again: a root whose callback slot is empty is popped and dropped (nothing else
  changes); a live root with \<open>startTime \<le> currentTime\<close> is popped, gets
  \<open>sortIndex = expirationTime\<close> and is pushed into the ready queue; at a live root with
  \<open>startTime > currentTime\<close>, and on an empty queue, the function stops and the state is
  as it was. So the root it leaves, if any, is live and starts after \<open>currentTime\<close>.
\<close>

theorem advanceTimers_examines_root:
  "(case peek (timerQueue s) of
      None \<Rightarrow> advanceTimers currentTime s = s
    | Some top' \<Rightarrow>
        if callback (objs s top') = None then
          advanceTimers currentTime s =
            advanceTimers currentTime (s\<lparr> timerQueue := snd (pop (objs s) (timerQueue s)) \<rparr>)
        else if startTime (objs s top') \<le> currentTime then
          advanceTimers currentTime s =
            advanceTimers currentTime
              (s\<lparr> timerQueue := snd (pop (objs s) (timerQueue s)),
                 objs := (objs s)(top' :=
                           (objs s top')\<lparr> sortIndex := expirationTime (objs s top') \<rparr>),
                 taskQueue := push ((objs s)(top' :=
                                 (objs s top')\<lparr> sortIndex := expirationTime (objs s top') \<rparr>))
                                (taskQueue s) top' \<rparr>)
        else advanceTimers currentTime s = s) \<and>
   (\<forall>r. peek (timerQueue (advanceTimers currentTime s)) = Some r \<longrightarrow>
      callback (objs (advanceTimers currentTime s) r) \<noteq> None \<and>
      startTime (objs (advanceTimers currentTime s) r) > currentTime)"
proof (rule conjI)
  show "case peek (timerQueue s) of
      None \<Rightarrow> advanceTimers currentTime s = s
    | Some top' \<Rightarrow>
        if callback (objs s top') = None then
          advanceTimers currentTime s =
            advanceTimers currentTime (s\<lparr> timerQueue := snd (pop (objs s) (timerQueue s)) \<rparr>)
        else if startTime (objs s top') \<le> currentTime then
          advanceTimers currentTime s =
            advanceTimers currentTime
              (s\<lparr> timerQueue := snd (pop (objs s) (timerQueue s)),
                 objs := (objs s)(top' :=
                           (objs s top')\<lparr> sortIndex := expirationTime (objs s top') \<rparr>),
                 taskQueue := push ((objs s)(top' :=
                                 (objs s top')\<lparr> sortIndex := expirationTime (objs s top') \<rparr>))
                                (taskQueue s) top' \<rparr>)
        else advanceTimers currentTime s = s"
    using advanceTimers_empty [of s currentTime] advanceTimers_discard [of s _ currentTime]
      advanceTimers_promote [of s _ currentTime] advanceTimers_stop [of s _ currentTime]
    by (auto split: option.splits)
next
  show "\<forall>r. peek (timerQueue (advanceTimers currentTime s)) = Some r \<longrightarrow>
      callback (objs (advanceTimers currentTime s) r) \<noteq> None \<and>
      startTime (objs (advanceTimers currentTime s) r) > currentTime"
    using advanceTimers_root by blast
qed

theorem advanceTimers_examines_root_witness:
  "peek (timerQueue threeTimers) = Some 0 \<and> callback (objs threeTimers 0) = None \<and>
   (let s = advanceTimers 20 threeTimers in
      peek (timerQueue s) = Some 2 \<and> callback (objs s 2) \<noteq> None \<and>
      startTime (objs s 2) > 20 \<and> timerQueue s = [2] \<and> taskQueue s = [1] \<and>
      sortIndex (objs s 1) = expirationTime (objs s 1))"
  using advanceTimers_examines_root [where s = threeTimers and currentTime = 20]
  by (simp add: threeTimers_def initialScheduler_def advanceTimers.simps peek_def pop_def
       push_def siftUp.simps siftDown.simps Let_def keyLess_def swap_def)

section \<open>Delayed tasks\<close>

text \<open>
  C8. A task submitted with \<open>delay > 0\<close> is never in the ready queue while the clock
  is before its start time. In every state the module reaches from the freshly loaded
  one, every task in the ready queue has \<open>startTime \<le>\<close> the clock (this covers the
  tasks a callback submits). And for a submission with \<open>delay > 0\<close> in such a state: the
  new task is put into the delayed queue and not into the ready queue, its start time
  is the time of submission plus \<open>delay\<close>, and whenever it is in the ready queue later,
  the clock has reached that time. The only place that pushes an existing task into the
  ready queue is \<open>advanceTimers\<close>, under the test \<open>startTime \<le> currentTime\<close>.
\<close>

theorem delayed_task_not_ready_early:
  assumes "0 < delay"
  shows "(\<forall>evs. \<forall>r \<in> set (taskQueue (run timeoutOf evs initialScheduler)).
            startTime (objs (run timeoutOf evs initialScheduler) r)
              \<le> clock (run timeoutOf evs initialScheduler)) \<and>
         (let s = run timeoutOf before initialScheduler;
              task = taskIdCounter s;
              s1 = fst (scheduleCallback timeoutOf priority cb (Some delay) s)
          in task \<in> set (timerQueue s1) \<and> task \<notin> set (taskQueue s1) \<and>
             startTime (objs s1 task) = clock s + delay \<and>
             (\<forall>after. task \<in> set (taskQueue (run timeoutOf after s1)) \<longrightarrow>
                      clock s + delay \<le> clock (run timeoutOf after s1)))"
proof (rule conjI)
  show "\<forall>evs. \<forall>r \<in> set (taskQueue (run timeoutOf evs initialScheduler)).
            startTime (objs (run timeoutOf evs initialScheduler) r)
              \<le> clock (run timeoutOf evs initialScheduler)"
    using readyInv_reachable [of timeoutOf] by (simp add: readyInv_def)
next
  define s where "s = run timeoutOf before initialScheduler"
  define task where "task = taskIdCounter s"
  define s1 where "s1 = fst (scheduleCallback timeoutOf priority cb (Some delay) s)"
  have inv: "readyInv s"
    unfolding s_def by (rule readyInv_reachable)
  have later: "startTimeOf (Some delay) s > clock s"
    using assms by (simp add: startTimeOf_def)
  have fresh: "task \<notin> set (taskQueue s)"
    using inv by (auto simp: readyInv_def queued_def task_def)
  have inv1: "readyInv s1"
    unfolding s1_def using inv by (rule readyInv_scheduleCallback)
  have start1: "startTime (objs s1 task) = clock s + delay"
    by (simp add: s1_def task_def scheduleCallback_objs startTimeOf_def)
  have trk1: "tracked task (clock s + delay) False 0 s1"
    using start1 by (simp add: tracked_def s1_def task_def)
  have "task \<in> set (timerQueue s1)"
    unfolding s1_def task_def by (simp add: scheduleCallback_delayed(2) [OF later])
  moreover have "task \<notin> set (taskQueue s1)"
    unfolding s1_def using fresh by (simp add: scheduleCallback_delayed(1) [OF later])
  moreover have "clock s + delay \<le> clock (run timeoutOf after s1)"
    if "task \<in> set (taskQueue (run timeoutOf after s1))" for after
  proof -
    have "readyInv (run timeoutOf after s1)"
      using upheld_readyInv inv1 by (rule upheld_run)
    moreover have "tracked task (clock s + delay) False 0 (run timeoutOf after s1)"
      using upheld_tracked trk1 by (rule upheld_run)
    ultimately show ?thesis
      using that by (auto simp: readyInv_def tracked_def)
  qed
  ultimately show "let s = run timeoutOf before initialScheduler;
              task = taskIdCounter s;
              s1 = fst (scheduleCallback timeoutOf priority cb (Some delay) s)
          in task \<in> set (timerQueue s1) \<and> task \<notin> set (taskQueue s1) \<and>
             startTime (objs s1 task) = clock s + delay \<and>
             (\<forall>after. task \<in> set (taskQueue (run timeoutOf after s1)) \<longrightarrow>
                      clock s + delay \<le> clock (run timeoutOf after s1))"
    using start1 unfolding Let_def s_def [symmetric] task_def [symmetric] s1_def [symmetric]
    by blast
qed

theorem delayed_task_not_ready_early_witness:
  "(0::int) < 50 \<and>
   (let s = run (\<lambda>p. 5000) [CallSchedule NormalPriority (Callback [] ReturnsOther) None, Tick 3]
              initialScheduler
    in 0 \<in> set (taskQueue s) \<and> startTime (objs s 0) \<le> clock s) \<and>
   (let s1 = fst (scheduleCallback (\<lambda>p. 5000) NormalPriority (Callback [] ReturnsOther)
                    (Some 50) initialScheduler)
    in 0 \<in> set (timerQueue s1) \<and> 0 \<notin> set (taskQueue s1) \<and>
       0 \<notin> set (taskQueue (run (\<lambda>p. 5000) [Tick 40, Timeout] s1)) \<and>
       0 \<in> set (taskQueue (run (\<lambda>p. 5000) [Tick 60, Timeout] s1)) \<and>
       (50::int) \<le> clock (run (\<lambda>p. 5000) [Tick 60, Timeout] s1))"
  using delayed_task_not_ready_early
    [of 50 "\<lambda>p. 5000" "[]" NormalPriority "Callback [] ReturnsOther"]
  by (simp add: evalDefs)

section \<open>Cancellation\<close>

text \<open>
  C9. For a task that exists: \<open>cancelCallback\<close> on a task whose slot is empty (it was
  cancelled, or its callback was called and did not return a continuation: fourth
  conjunct) changes nothing; after \<open>cancelCallback\<close> the slot stays empty through every
  run, and the callback is never called again (the number of its invocations stays what
  it was, so a callback cancelled before its first call is never called); and a task
  with an empty slot that the work loop reaches at the root of the ready queue is
  popped without a call. Last conjunct, for a \<open>cancelCallback(task)\<close> made during a
  flush by the callback of another task (\<open>currentTask\<close>, any pass of the loop): the
  slot of \<open>task\<close> is empty and \<open>task\<close> has not been called when that callback ends,
  when \<open>workLoop\<close> is left, and through every run after the flush (\<open>flushWork\<close> and
  \<open>performWorkUntilDealine\<close> then change flags and host fields only, which \<open>sameCore\<close>
  allows for).
\<close>

theorem cancelled_task_never_runs:
  assumes "task < taskIdCounter s"
  shows "(callback (objs s task) = None \<longrightarrow> cancelCallback task s = s) \<and>
         (\<forall>evs. callback (objs (run timeoutOf evs (cancelCallback task s)) task) = None \<and>
                count_list (invoked (run timeoutOf evs (cancelCallback task s))) task =
                  count_list (invoked s) task) \<and>
         (\<forall>currentTime.
            callback (objs s task) = None \<longrightarrow>
            \<not> (expirationTime (objs s task) > currentTime \<and> shouldYieldToHost s) \<longrightarrow>
            workLoop_body timeoutOf task currentTime s =
              Continue currentTime (s\<lparr> taskQueue := snd (pop (objs s) (taskQueue s)) \<rparr>)) \<and>
         (\<forall>cb currentTime currentTime' s'.
            callback (objs s task) = Some cb \<longrightarrow>
            workLoop_body timeoutOf task currentTime s = Continue currentTime' s' \<longrightarrow>
            callback (objs s' task) = None) \<and>
         (\<forall>currentTask currentTime cb.
            peek (taskQueue s) = Some currentTask \<longrightarrow> currentTask \<noteq> task \<longrightarrow>
            \<not> (expirationTime (objs s currentTask) > currentTime \<and> shouldYieldToHost s) \<longrightarrow>
            callback (objs s currentTask) = Some cb \<longrightarrow> Cancel task \<in> set (effects cb) \<longrightarrow>
            callback (objs (called timeoutOf currentTask cb s) task) = None \<and>
            count_list (invoked (called timeoutOf currentTask cb s)) task =
              count_list (invoked s) task \<and>
            callback (objs (fst (workLoop_while timeoutOf currentTime s)) task) = None \<and>
            count_list (invoked (fst (workLoop_while timeoutOf currentTime s))) task =
              count_list (invoked s) task \<and>
            (\<forall>s' evs. sameCore (fst (workLoop_while timeoutOf currentTime s)) s' \<longrightarrow>
               callback (objs (run timeoutOf evs s') task) = None \<and>
               count_list (invoked (run timeoutOf evs s')) task = count_list (invoked s) task))"
proof (intro conjI)
  show "callback (objs s task) = None \<longrightarrow> cancelCallback task s = s"
    by (simp add: cancelCallback_empty_slot)
next
  let ?P = "tracked task (startTime (objs s task)) True (count_list (invoked s) task)"
  have "?P (cancelCallback task s)"
    using assms by (simp add: tracked_def cancelCallback_def)
  then have "?P (run timeoutOf evs (cancelCallback task s))" for evs
    by (rule upheld_run [OF upheld_tracked])
  then show "\<forall>evs. callback (objs (run timeoutOf evs (cancelCallback task s)) task) = None \<and>
                count_list (invoked (run timeoutOf evs (cancelCallback task s))) task =
                  count_list (invoked s) task"
    by (simp add: tracked_def)
next
  show "\<forall>currentTime.
            callback (objs s task) = None \<longrightarrow>
            \<not> (expirationTime (objs s task) > currentTime \<and> shouldYieldToHost s) \<longrightarrow>
            workLoop_body timeoutOf task currentTime s =
              Continue currentTime (s\<lparr> taskQueue := snd (pop (objs s) (taskQueue s)) \<rparr>)"
    by (auto simp: workLoop_body_def)
next
  show "\<forall>cb currentTime currentTime' s'.
            callback (objs s task) = Some cb \<longrightarrow>
            workLoop_body timeoutOf task currentTime s = Continue currentTime' s' \<longrightarrow>
            callback (objs s' task) = None"
    using executed_slot_empty [OF assms] by blast
next
  let ?P = "tracked task (startTime (objs s task)) True (count_list (invoked s) task)"
  show "\<forall>currentTask currentTime cb.
            peek (taskQueue s) = Some currentTask \<longrightarrow> currentTask \<noteq> task \<longrightarrow>
            \<not> (expirationTime (objs s currentTask) > currentTime \<and> shouldYieldToHost s) \<longrightarrow>
            callback (objs s currentTask) = Some cb \<longrightarrow> Cancel task \<in> set (effects cb) \<longrightarrow>
            callback (objs (called timeoutOf currentTask cb s) task) = None \<and>
            count_list (invoked (called timeoutOf currentTask cb s)) task =
              count_list (invoked s) task \<and>
            callback (objs (fst (workLoop_while timeoutOf currentTime s)) task) = None \<and>
            count_list (invoked (fst (workLoop_while timeoutOf currentTime s))) task =
              count_list (invoked s) task \<and>
            (\<forall>s' evs. sameCore (fst (workLoop_while timeoutOf currentTime s)) s' \<longrightarrow>
               callback (objs (run timeoutOf evs s') task) = None \<and>
               count_list (invoked (run timeoutOf evs s')) task = count_list (invoked s) task)"
  proof (intro allI impI)
    fix currentTask currentTime cb
    assume root: "peek (taskQueue s) = Some currentTask"
      and other: "currentTask \<noteq> task"
      and go: "\<not> (expirationTime (objs s currentTask) > currentTime \<and> shouldYieldToHost s)"
      and slot: "callback (objs s currentTask) = Some cb"
      and cancels: "Cancel task \<in> set (effects cb)"
    have ended: "?P (called timeoutOf currentTask cb s)"
      using assms other cancels by (rule cancel_in_call)
    have left: "?P (fst (workLoop_while timeoutOf currentTime s))"
      using assms root other go slot cancels by (rule cancel_in_flush)
    have later: "?P (run timeoutOf evs s')"
      if "sameCore (fst (workLoop_while timeoutOf currentTime s)) s'" for s' evs
    proof -
      have "?P s'"
        using upheld_tracked left that by (rule upheld_sameCore)
      then show ?thesis
        by (rule upheld_run [OF upheld_tracked])
    qed
    show "callback (objs (called timeoutOf currentTask cb s) task) = None \<and>
            count_list (invoked (called timeoutOf currentTask cb s)) task =
              count_list (invoked s) task \<and>
            callback (objs (fst (workLoop_while timeoutOf currentTime s)) task) = None \<and>
            count_list (invoked (fst (workLoop_while timeoutOf currentTime s))) task =
              count_list (invoked s) task \<and>
            (\<forall>s' evs. sameCore (fst (workLoop_while timeoutOf currentTime s)) s' \<longrightarrow>
               callback (objs (run timeoutOf evs s') task) = None \<and>
               count_list (invoked (run timeoutOf evs s')) task = count_list (invoked s) task)"
      using ended left later by (simp add: tracked_def)
  qed
qed

theorem cancelled_task_never_runs_witness:
  "0 < taskIdCounter oneReady \<and> callback (objs oneReady 0) \<noteq> None \<and>
   invoked (run (\<lambda>p. 5000) [Message] oneReady) = [0] \<and>
   callback (objs (run (\<lambda>p. 5000) [Message] oneReady) 0) = None \<and>
   invoked (run (\<lambda>p. 5000) [Message] (cancelCallback 0 oneReady)) = [] \<and>
   taskQueue (run (\<lambda>p. 5000) [Message] (cancelCallback 0 oneReady)) = [] \<and>
   count_list (invoked (run (\<lambda>p. 5000) [Message, Tick 3, Timeout, Message] (cancelCallback 0 oneReady))) 0 = 0 \<and>
   cancelCallback 0 (cancelCallback 0 oneReady) = cancelCallback 0 oneReady \<and>
   (\<exists>s'. workLoop_body (\<lambda>p. 5000) 0 0 (cancelCallback 0 oneReady) = Continue 0 s' \<and>
         taskQueue s' = [] \<and> invoked s' = []) \<and>
   (\<exists>s'. workLoop_body (\<lambda>p. 5000) 0 0 oneReady = Continue 1 s' \<and>
         callback (objs s' 0) = None \<and> invoked s' = [0]) \<and>
   1 < taskIdCounter cancelsNext \<and> peek (taskQueue cancelsNext) = Some 0 \<and>
   \<not> (expirationTime (objs cancelsNext 0) > 0 \<and> shouldYieldToHost cancelsNext) \<and>
   callback (objs cancelsNext 0) = Some (Callback [Elapse 1, Cancel 1, Elapse 1] ReturnsOther) \<and>
   callback (objs cancelsNext 1) = Some (Callback [Elapse 1] ReturnsOther) \<and>
   Cancel 1 \<in> set (effects (Callback [Elapse 1, Cancel 1, Elapse 1] ReturnsOther)) \<and>
   callback (objs (fst (workLoop_while (\<lambda>p. 5000) 0 cancelsNext)) 1) = None \<and>
   count_list (invoked (fst (workLoop_while (\<lambda>p. 5000) 0 cancelsNext))) 1 = 0 \<and>
   invoked (run (\<lambda>p. 5000) [Message] cancelsNext) = [0] \<and>
   taskQueue (run (\<lambda>p. 5000) [Message] cancelsNext) = [] \<and>
   invoked (run (\<lambda>p. 5000) [Message, Tick 3, Timeout, Message] cancelsNext) = [0] \<and>
   invoked (run (\<lambda>p. 5000) [Message] runsBoth) = [0, 1]"
proof -
  have ex2: "1 < taskIdCounter cancelsNext"
    by (simp add: cancelsNext_def evalDefs)
  have given: "peek (taskQueue cancelsNext) = Some 0 \<and>
      \<not> (expirationTime (objs cancelsNext 0) > 0 \<and> shouldYieldToHost cancelsNext) \<and>
      callback (objs cancelsNext 0) = Some (Callback [Elapse 1, Cancel 1, Elapse 1] ReturnsOther) \<and>
      callback (objs cancelsNext 1) = Some (Callback [Elapse 1] ReturnsOther) \<and>
      Cancel 1 \<in> set (effects (Callback [Elapse 1, Cancel 1, Elapse 1] ReturnsOther)) \<and>
      invoked cancelsNext = []"
    by (simp add: cancelsNext_def evalDefs)
  have inside: "callback (objs (fst (workLoop_while (\<lambda>p. 5000) 0 cancelsNext)) 1) = None \<and>
      count_list (invoked (fst (workLoop_while (\<lambda>p. 5000) 0 cancelsNext))) 1 = 0"
    using cancelled_task_never_runs [OF ex2, of "\<lambda>p. 5000"] given by simp
  have flushes: "invoked (run (\<lambda>p. 5000) [Message] cancelsNext) = [0] \<and>
      taskQueue (run (\<lambda>p. 5000) [Message] cancelsNext) = [] \<and>
      invoked (run (\<lambda>p. 5000) [Message, Tick 3, Timeout, Message] cancelsNext) = [0] \<and>
      invoked (run (\<lambda>p. 5000) [Message] runsBoth) = [0, 1]"
    by (simp add: cancelsNext_def runsBoth_def evalDefs)
  have ex: "0 < taskIdCounter oneReady"
    by (simp add: oneReady_def evalDefs)
  have ex': "0 < taskIdCounter (cancelCallback 0 oneReady)"
    by (simp add: oneReady_def evalDefs)
  have "count_list (invoked (run (\<lambda>p. 5000) [Message, Tick 3, Timeout, Message] (cancelCallback 0 oneReady))) 0 = 0"
    using cancelled_task_never_runs [OF ex, of "\<lambda>p. 5000"]
    by (simp add: oneReady_def evalDefs)
  moreover have "cancelCallback 0 (cancelCallback 0 oneReady) = cancelCallback 0 oneReady"
    using cancelled_task_never_runs [OF ex', of "\<lambda>p. 5000"]
    by (simp add: cancelCallback_def)
  moreover have "callback (objs oneReady 0) \<noteq> None \<and>
   invoked (run (\<lambda>p. 5000) [Message] oneReady) = [0] \<and>
   callback (objs (run (\<lambda>p. 5000) [Message] oneReady) 0) = None \<and>
   invoked (run (\<lambda>p. 5000) [Message] (cancelCallback 0 oneReady)) = [] \<and>
   taskQueue (run (\<lambda>p. 5000) [Message] (cancelCallback 0 oneReady)) = []"
    by (simp add: oneReady_def evalDefs)
  moreover have "\<exists>s'. workLoop_body (\<lambda>p. 5000) 0 0 (cancelCallback 0 oneReady) = Continue 0 s' \<and>
         taskQueue s' = [] \<and> invoked s' = []"
    by (simp add: oneReady_def evalDefs)
  moreover have "\<exists>s'. workLoop_body (\<lambda>p. 5000) 0 0 oneReady = Continue 1 s' \<and>
         callback (objs s' 0) = None \<and> invoked s' = [0]"
    by (simp add: oneReady_def evalDefs)
  ultimately show ?thesis
    using ex ex2 given inside flushes by simp
qed

text \<open>
  The last conjunct needs \<open>currentTask \<noteq> task\<close>: a callback that cancels its own task
  does so while the slot is already empty, and the continuation it returns is stored
  afterwards, so the task is called again in the next flush.
\<close>

lemma self_cancel_is_overwritten:
  "invoked (run (\<lambda>p. 5000) [Message] cancelsItself) = [0] \<and>
   callback (objs (run (\<lambda>p. 5000) [Message] cancelsItself) 0) =
     Some (Callback [] ReturnsOther) \<and>
   invoked (run (\<lambda>p. 5000) [Message, Message] cancelsItself) = [0, 0]"
  by (simp add: cancelsItself_def evalDefs)



section \<open>The work loop\<close>

text \<open>
  C3. When \<open>workLoop\<close> leaves its loop with the ready queue empty and the delayed queue
  is not empty, it is claimed to arm a host timeout for the remaining delay of the root
  of the delayed queue. The code reads the root of the ready queue there
  (\<open>peek(taskQueue)\<close>), which is \<open>null\<close> at that point, and arms nothing. First
  conjunct: a task submitted with a delay of 50 to the freshly loaded module, then
  \<open>workLoop\<close> at time 0: the task stays in the delayed queue with its callback, the
  result is \<open>false\<close>, and no timeout is pending. Second conjunct: a ready task and a
  task with a delay of 50 are submitted, then \<open>flushWork\<close> runs at time 0: the ready task
  is called and retired, the delayed one is left with no timeout to wake the module.
\<close>

theorem workLoop_arms_no_timeout:
  "(let s = fst (scheduleCallback timeoutOf NormalPriority cb (Some 50) initialScheduler);
        (s', r) = workLoop timeoutOf True 0 s in
      taskQueue s' = [] \<and> timerQueue s' = [0] \<and> callback (objs s' 0) = Some cb \<and>
      startTime (objs s' 0) = 50 \<and> timeouts s' = [] \<and> r = Inr False) \<and>
   (let s = fst (scheduleCallback timeoutOf NormalPriority (Callback [Elapse 1] ReturnsOther)
                   (Some 50)
              (fst (scheduleCallback timeoutOf NormalPriority (Callback [Elapse 1] ReturnsOther)
                      None initialScheduler)));
        (s', r) = flushWork timeoutOf True 0 s in
      invoked s' = [0] \<and> taskQueue s' = [] \<and> timerQueue s' = [1] \<and>
      callback (objs s' 1) = Some (Callback [Elapse 1] ReturnsOther) \<and>
      startTime (objs s' 1) = 50 \<and> clock s' = 1 \<and> timeouts s' = [] \<and> r = Inr False)"
  by (simp add: evalDefs)

text \<open>
  C10. \<open>flushWork\<close> sets \<open>isPerformingWork\<close> before it calls \<open>workLoop\<close> and clears it on
  every way out, also when a callback throws, and the exception still reaches the
  caller: the flag is false in the state \<open>flushWork\<close> leaves; \<open>workLoop\<close> is entered in
  a state where the flag is true; and the result of \<open>flushWork\<close> is the state
  \<open>workLoop\<close> left, with the flag cleared, and the value or exception of \<open>workLoop\<close>.
\<close>

theorem flushWork_releases_flag:
  "isPerformingWork (fst (flushWork timeoutOf hasTimeRemaining initialTime s)) = False \<and>
   (let entry = (if isHostTimeoutScheduled s
                 then cancelHostTimeout (s\<lparr> isHostCallbackScheduled := False,
                                            isHostTimeoutScheduled := False \<rparr>)
                 else s\<lparr> isHostCallbackScheduled := False \<rparr>)\<lparr> isPerformingWork := True \<rparr>
    in isPerformingWork entry = True \<and>
       flushWork timeoutOf hasTimeRemaining initialTime s =
         (fst (workLoop timeoutOf hasTimeRemaining initialTime entry)\<lparr> isPerformingWork := False \<rparr>,
          snd (workLoop timeoutOf hasTimeRemaining initialTime entry)))"
  by (simp add: flushWork_def Let_def split: prod.splits)

theorem flushWork_releases_flag_witness:
  "snd (flushWork (\<lambda>p. 5000) True 0 oneThrowing) = Inl CallbackError \<and>
   invoked (fst (flushWork (\<lambda>p. 5000) True 0 oneThrowing)) = [0] \<and>
   isPerformingWork (fst (flushWork (\<lambda>p. 5000) True 0 oneThrowing)) = False"
proof -
  have "snd (flushWork (\<lambda>p. 5000) True 0 oneThrowing) = Inl CallbackError \<and>
        invoked (fst (flushWork (\<lambda>p. 5000) True 0 oneThrowing)) = [0]"
    by (simp add: oneThrowing_def evalDefs)
  then show ?thesis
    using flushWork_releases_flag [of "\<lambda>p. 5000" True 0 oneThrowing] by simp
qed

text \<open>
  C5. At the head of the loop in \<open>workLoop\<close> (\<open>workLoop\<close> is \<open>advanceTimers\<close> followed
  by this loop), with \<open>currentTask\<close> the root of the ready queue: if its
  \<open>expirationTime\<close> is after \<open>currentTime\<close> and at least 5 time units have passed since
  the start of the slice, \<open>workLoop\<close> returns \<open>true\<close> and the state is untouched (the
  task was not run); if its \<open>expirationTime\<close> is not after \<open>currentTime\<close> and its slot
  holds a callback, that callback is the next one called, whatever the slice.
\<close>

theorem yield_check_spares_overdue_root:
  assumes "peek (taskQueue s) = Some currentTask"
  shows "(expirationTime (objs s currentTask) > currentTime \<longrightarrow>
            (\<exists>sliceStart. startTime_slice s = Some sliceStart \<and>
                           getCurrentTime s - sliceStart \<ge> 5) \<longrightarrow>
            workLoop_while timeoutOf currentTime s = (s, Inr True)) \<and>
         (expirationTime (objs s currentTask) \<le> currentTime \<longrightarrow>
            (\<forall>cb. callback (objs s currentTask) = Some cb \<longrightarrow>
               (\<exists>rest. invoked (fst (workLoop_while timeoutOf currentTime s)) =
                         invoked s @ currentTask # rest)))"
proof (intro conjI allI impI)
  assume "expirationTime (objs s currentTask) > currentTime"
    and "\<exists>sliceStart. startTime_slice s = Some sliceStart \<and> getCurrentTime s - sliceStart \<ge> 5"
  then have "workLoop_body timeoutOf currentTask currentTime s = Break"
    by (auto simp: workLoop_body_def shouldYieldToHost_def frameInterval_def)
  then show "workLoop_while timeoutOf currentTime s = (s, Inr True)"
    using workLoop_while_Break [OF assms] by (simp add: workLoop_after_def)
next
  fix cb
  assume "expirationTime (objs s currentTask) \<le> currentTime"
    and "callback (objs s currentTask) = Some cb"
  with assms show "\<exists>rest. invoked (fst (workLoop_while timeoutOf currentTime s)) =
                         invoked s @ currentTask # rest"
    by (rule overdue_root_is_called)
qed

theorem yield_check_spares_overdue_root_witness:
  "peek (taskQueue (sliceUsedUp (\<lambda>p. 5000))) = Some 0 \<and>
   expirationTime (objs (sliceUsedUp (\<lambda>p. 5000)) 0) > 7 \<and>
   startTime_slice (sliceUsedUp (\<lambda>p. 5000)) = Some 0 \<and>
   getCurrentTime (sliceUsedUp (\<lambda>p. 5000)) - 0 \<ge> 5 \<and>
   snd (workLoop_while (\<lambda>p. 5000) 7 (sliceUsedUp (\<lambda>p. 5000))) = Inr True \<and>
   invoked (fst (workLoop_while (\<lambda>p. 5000) 7 (sliceUsedUp (\<lambda>p. 5000)))) = [] \<and>
   peek (taskQueue (sliceUsedUp (\<lambda>p. 0))) = Some 0 \<and>
   expirationTime (objs (sliceUsedUp (\<lambda>p. 0)) 0) \<le> 7 \<and>
   shouldYieldToHost (sliceUsedUp (\<lambda>p. 0)) \<and>
   callback (objs (sliceUsedUp (\<lambda>p. 0)) 0) = Some (Callback [Elapse 1] ReturnsOther) \<and>
   (\<exists>rest. invoked (fst (workLoop_while (\<lambda>p. 0) 7 (sliceUsedUp (\<lambda>p. 0)))) = [] @ 0 # rest)"
proof -
  have fresh: "peek (taskQueue (sliceUsedUp (\<lambda>p. 5000))) = Some 0"
    by (simp add: sliceUsedUp_def evalDefs)
  have fresh': "expirationTime (objs (sliceUsedUp (\<lambda>p. 5000)) 0) > 7 \<and>
      startTime_slice (sliceUsedUp (\<lambda>p. 5000)) = Some 0 \<and>
      getCurrentTime (sliceUsedUp (\<lambda>p. 5000)) - 0 \<ge> 5 \<and>
      invoked (sliceUsedUp (\<lambda>p. 5000)) = []"
    by (simp add: sliceUsedUp_def evalDefs)
  have overdue: "peek (taskQueue (sliceUsedUp (\<lambda>p. 0))) = Some 0"
    by (simp add: sliceUsedUp_def evalDefs)
  have overdue': "expirationTime (objs (sliceUsedUp (\<lambda>p. 0)) 0) \<le> 7 \<and>
      shouldYieldToHost (sliceUsedUp (\<lambda>p. 0)) \<and>
      callback (objs (sliceUsedUp (\<lambda>p. 0)) 0) = Some (Callback [Elapse 1] ReturnsOther) \<and>
      invoked (sliceUsedUp (\<lambda>p. 0)) = []"
    by (simp add: sliceUsedUp_def evalDefs)
  have "workLoop_while (\<lambda>p. 5000) 7 (sliceUsedUp (\<lambda>p. 5000)) = (sliceUsedUp (\<lambda>p. 5000), Inr True)"
    using yield_check_spares_overdue_root [OF fresh, of 7 "\<lambda>p. 5000"] fresh' by simp
  moreover have "\<exists>rest. invoked (fst (workLoop_while (\<lambda>p. 0) 7 (sliceUsedUp (\<lambda>p. 0)))) = [] @ 0 # rest"
    using yield_check_spares_overdue_root [OF overdue, of 7 "\<lambda>p. 0"] overdue' by simp
  ultimately show ?thesis
    using fresh fresh' overdue overdue' by simp
qed

text \<open>
  C6. When the callback of the root, called by \<open>workLoop\<close>, returns a function:
  \<open>workLoop\<close> returns \<open>true\<close> at once, in the state where the function has been stored
  in the slot of the same task and \<open>advanceTimers\<close> has run with the time read after the
  call; the task is still in the ready queue, and no other callback has been called.
\<close>

theorem continuation_yields:
  assumes "peek (taskQueue s) = Some currentTask"
    and "\<not> (expirationTime (objs s currentTask) > currentTime \<and> shouldYieldToHost s)"
    and "callback (objs s currentTask) = Some cb"
    and "ending cb = ReturnsFunction k"
  shows "let s2 = called timeoutOf currentTask cb s;
             s' = fst (workLoop_while timeoutOf currentTime s)
         in workLoop_while timeoutOf currentTime s =
              (advanceTimers (getCurrentTime s2)
                 (s2\<lparr> objs := (objs s2)(currentTask :=
                         (objs s2 currentTask)\<lparr> callback := Some k \<rparr>) \<rparr>),
               Inr True) \<and>
            callback (objs s' currentTask) = Some k \<and>
            currentTask \<in> set (taskQueue s') \<and>
            invoked s' = invoked s @ [currentTask]"
proof -
  define s2 where "s2 = called timeoutOf currentTask cb s"
  define s3 where "s3 = s2\<lparr> objs := (objs s2)(currentTask :=
                         (objs s2 currentTask)\<lparr> callback := Some k \<rparr>) \<rparr>"
  have body: "workLoop_body timeoutOf currentTask currentTime s =
                Return (advanceTimers (getCurrentTime s2) s3, Inr True)"
    using assms(2,3,4)
    by (auto simp: workLoop_body_def Let_def call_def called_def s2_def s3_def)
  have res: "workLoop_while timeoutOf currentTime s = (advanceTimers (getCurrentTime s2) s3, Inr True)"
    using assms(1) body by (rule workLoop_while_Return)
  have "currentTask \<in> set (taskQueue s)"
    using assms(1) by (rule peek_in_set)
  then have "currentTask \<in> set (taskQueue s2)"
    unfolding s2_def by (rule taskQueue_called)
  then have "currentTask \<in> set (taskQueue s3)"
    by (simp add: s3_def)
  then have "currentTask \<in> set (taskQueue (advanceTimers (getCurrentTime s2) s3))"
    by (rule advanceTimers_keeps_ready)
  moreover have "callback (objs (advanceTimers (getCurrentTime s2) s3) currentTask) = Some k"
    by (simp add: s3_def)
  moreover have "invoked (advanceTimers (getCurrentTime s2) s3) = invoked s @ [currentTask]"
    by (simp add: s3_def s2_def)
  ultimately show ?thesis
    using res unfolding Let_def s2_def [symmetric] s3_def [symmetric] by simp
qed

theorem continuation_yields_witness:
  "peek (taskQueue twoReady) = Some 0 \<and>
   \<not> (expirationTime (objs twoReady 0) > 0 \<and> shouldYieldToHost twoReady) \<and>
   callback (objs twoReady 0) =
     Some (Callback [Elapse 1] (ReturnsFunction (Callback [Elapse 2] ReturnsOther))) \<and>
   snd (workLoop_while (\<lambda>p. 5000) 0 twoReady) = Inr True \<and>
   callback (objs (fst (workLoop_while (\<lambda>p. 5000) 0 twoReady)) 0) =
     Some (Callback [Elapse 2] ReturnsOther) \<and>
   taskQueue (fst (workLoop_while (\<lambda>p. 5000) 0 twoReady)) = [0, 1] \<and>
   invoked (fst (workLoop_while (\<lambda>p. 5000) 0 twoReady)) = [0]"
proof -
  have root: "peek (taskQueue twoReady) = Some 0"
    by (simp add: twoReady_def evalDefs)
  have go: "\<not> (expirationTime (objs twoReady 0) > 0 \<and> shouldYieldToHost twoReady)"
    by (simp add: twoReady_def evalDefs)
  have slot: "callback (objs twoReady 0) =
     Some (Callback [Elapse 1] (ReturnsFunction (Callback [Elapse 2] ReturnsOther)))"
    by (simp add: twoReady_def evalDefs)
  have q: "taskQueue (fst (workLoop_while (\<lambda>p. 5000) 0 twoReady)) = [0, 1]"
    by (simp add: twoReady_def evalDefs)
  have inv: "invoked twoReady = []"
    by (simp add: twoReady_def evalDefs)
  show ?thesis
    using continuation_yields [OF root go slot, of "Callback [Elapse 2] ReturnsOther" "\<lambda>p. 5000"]
      root go slot q inv
    by (simp add: Let_def)
qed

end
